theory Spec2Isabelle
  imports Main "HOL-Library.Word" "HOL-Library.Monad_Syntax"
begin

section \<open>Common types\<close>

text \<open>
  \<^verbatim>\<open>page_id_t\<close> is a signed 32-bit integer in the sources. No function modelled here
  does arithmetic on a page id except \<^verbatim>\<open>AllocatePage\<close> (\<^verbatim>\<open>next_page_id_++\<close>), whose
  overflow would need 2^31 allocations and is undefined behaviour in C++; page ids are
  therefore \<open>int\<close>. A frame id indexes the array \<^verbatim>\<open>pages_\<close> and is a \<open>nat\<close>.
\<close>

type_synonym page_id_t = int
type_synonym frame_id_t = nat

text \<open>
  Modelled from the spec: the constant \<^verbatim>\<open>INVALID_PAGE_ID\<close> is declared in
  \<^verbatim>\<open>common/config.h\<close>, which is not among the sources. The spec calls it a sentinel
  that is not a page id (page ids are non-negative); the value used is \<open>-1\<close>.
\<close>

definition INVALID_PAGE_ID :: page_id_t where
  "INVALID_PAGE_ID = - 1"

text \<open>
  Ways in which a call can fail to return normally: a failed \<^verbatim>\<open>BUSTUB_ASSERT\<close>, the
  \<^verbatim>\<open>throw\<close> of \<^verbatim>\<open>LRUKReplacer::Remove\<close>, and undefined behaviour (an array index out of
  range, \<^verbatim>\<open>front()\<close> of an empty list, a read of an unwritten out-parameter).
\<close>

datatype error = AssertionFailed | RemoveNonEvictable | Undefined

definition bind_err :: "error + 'a \<Rightarrow> ('a \<Rightarrow> error + 'b) \<Rightarrow> error + 'b" where
  "bind_err m f = (case m of Inl e \<Rightarrow> Inl e | Inr x \<Rightarrow> f x)"

section \<open>LRU-K replacer (src/buffer/lru\_k\_replacer.cpp)\<close>

text \<open>
  \<^verbatim>\<open>size_t\<close> values that are counted or compared (time stamps, \<^verbatim>\<open>curr_size_\<close>) are
  64-bit words. The two configuration constants \<^verbatim>\<open>replacer_size_\<close> and \<^verbatim>\<open>k_\<close> are only
  compared with a length or an index and are \<open>nat\<close>.

  A node keeps \<^verbatim>\<open>history_\<close> (oldest first) and \<^verbatim>\<open>is_evictable_\<close>; a default-constructed
  node has an empty history and is not evictable.
\<close>

record LRUKNode =
  history :: "64 word list"
  is_evictable :: bool

definition default_node :: LRUKNode where
  "default_node = \<lparr>history = [], is_evictable = False\<rparr>"

text \<open>
  \<^verbatim>\<open>node_store_\<close> is an unordered map; it is an association list with one entry per key,
  whose order stands for the (unspecified) iteration order of the container.
  \<^verbatim>\<open>lru_less_k_\<close> and \<^verbatim>\<open>lru_k_\<close> are declared in \<^verbatim>\<open>lru_k_replacer.h\<close> (not among the
  sources); they are used as ordered sets of pairs (time stamp, frame id)
  (\<^verbatim>\<open>insert({t, f})\<close>, \<^verbatim>\<open>erase({t, f})\<close>, a range-for over pairs), and are modelled as
  ascending duplicate-free lists under the lexicographic order of pairs.
\<close>

record LRUKReplacer =
  node_store :: "(frame_id_t \<times> LRUKNode) list"
  lru_less_k :: "(64 word \<times> frame_id_t) list"
  lru_k :: "(64 word \<times> frame_id_t) list"
  current_timestamp :: "64 word"
  curr_size :: "64 word"
  replacer_size :: nat
  replacer_k :: nat

definition pair_less :: "64 word \<times> frame_id_t \<Rightarrow> 64 word \<times> frame_id_t \<Rightarrow> bool" where
  "pair_less a b \<longleftrightarrow> fst a < fst b \<or> (fst a = fst b \<and> snd a < snd b)"

fun set_insert :: "64 word \<times> frame_id_t \<Rightarrow> (64 word \<times> frame_id_t) list \<Rightarrow> (64 word \<times> frame_id_t) list" where
  "set_insert x [] = [x]"
| "set_insert x (y # ys) =
     (if x = y then y # ys
      else if pair_less x y then x # y # ys
      else y # set_insert x ys)"

definition set_erase :: "64 word \<times> frame_id_t \<Rightarrow> (64 word \<times> frame_id_t) list \<Rightarrow> (64 word \<times> frame_id_t) list" where
  "set_erase x xs = removeAll x xs"

definition store_erase :: "frame_id_t \<Rightarrow> (frame_id_t \<times> LRUKNode) list \<Rightarrow> (frame_id_t \<times> LRUKNode) list" where
  "store_erase f ns = filter (\<lambda>p. fst p \<noteq> f) ns"

fun store_put :: "frame_id_t \<Rightarrow> LRUKNode \<Rightarrow> (frame_id_t \<times> LRUKNode) list \<Rightarrow> (frame_id_t \<times> LRUKNode) list" where
  "store_put f n [] = [(f, n)]"
| "store_put f n (p # ps) = (if fst p = f then (f, n) # ps else p # store_put f n ps)"

text \<open>
  One range-for of \<^verbatim>\<open>Evict\<close> over an ordered set. \<^verbatim>\<open>node_store_[frame_id_]\<close> inserts a
  default node when the frame is unknown; the loop stops at the first evictable node.
\<close>

fun Evict_loop :: "(64 word \<times> frame_id_t) list \<Rightarrow> (frame_id_t \<times> LRUKNode) list
    \<Rightarrow> (64 word \<times> frame_id_t) option \<times> (frame_id_t \<times> LRUKNode) list" where
  "Evict_loop [] ns = (None, ns)"
| "Evict_loop (p # ps) ns =
     (case map_of ns (snd p) of
        None \<Rightarrow> Evict_loop ps (store_put (snd p) default_node ns)
      | Some node \<Rightarrow> if is_evictable node then (Some p, ns) else Evict_loop ps ns)"

text \<open>\<^verbatim>\<open>Evict(frame_id_t *frame_id) -> bool\<close>: the out-parameter and the result are one option.\<close>

definition Evict :: "LRUKReplacer \<Rightarrow> frame_id_t option \<times> LRUKReplacer" where
  "Evict r =
     (case Evict_loop (lru_less_k r) (node_store r) of
        (Some p, ns) \<Rightarrow>
          (Some (snd p),
           r\<lparr>lru_less_k := set_erase p (lru_less_k r),
             node_store := store_erase (snd p) ns,
             curr_size := curr_size r - 1\<rparr>)
      | (None, ns) \<Rightarrow>
          (case Evict_loop (lru_k r) ns of
             (Some p, ns') \<Rightarrow>
               (Some (snd p),
                r\<lparr>lru_k := set_erase p (lru_k r),
                  node_store := store_erase (snd p) ns',
                  curr_size := curr_size r - 1\<rparr>)
           | (None, ns') \<Rightarrow> (None, r\<lparr>node_store := ns'\<rparr>)))"

definition RecordAccess :: "LRUKReplacer \<Rightarrow> frame_id_t \<Rightarrow> error + LRUKReplacer" where
  "RecordAccess r f =
     (if \<not> f < replacer_size r then Inl AssertionFailed
      else
        let ts = current_timestamp r + 1;
            new = (map_of (node_store r) f = None);
            ns1 = (if new then store_put f default_node (node_store r) else node_store r);
            less1 = (if new then set_insert (ts, f) (lru_less_k r) else lru_less_k r);
            node = (case map_of ns1 f of Some n \<Rightarrow> n | None \<Rightarrow> default_node);
            h = history node @ [ts];
            r1 = r\<lparr>current_timestamp := ts\<rparr>
        in if length h = replacer_k r then
             Inr (r1\<lparr>node_store := store_put f (node\<lparr>history := h\<rparr>) ns1,
                    lru_less_k := set_erase (hd h, f) less1,
                    lru_k := set_insert (hd h, f) (lru_k r)\<rparr>)
           else if length h > replacer_k r then
             (case tl h of
                [] \<Rightarrow> Inl Undefined
              | t # _ \<Rightarrow>
                  Inr (r1\<lparr>node_store := store_put f (node\<lparr>history := tl h\<rparr>) ns1,
                         lru_less_k := less1,
                         lru_k := set_insert (t, f) (set_erase (hd h, f) (lru_k r))\<rparr>))
           else Inr (r1\<lparr>node_store := store_put f (node\<lparr>history := h\<rparr>) ns1,
                       lru_less_k := less1\<rparr>))"

definition SetEvictable :: "LRUKReplacer \<Rightarrow> frame_id_t \<Rightarrow> bool \<Rightarrow> error + LRUKReplacer" where
  "SetEvictable r f set_evictable =
     (if \<not> f < replacer_size r then Inl AssertionFailed
      else case map_of (node_store r) f of
        None \<Rightarrow> Inr r
      | Some node \<Rightarrow>
          if is_evictable node = set_evictable then Inr r
          else Inr (r\<lparr>curr_size := curr_size r + (if set_evictable then 1 else - 1),
                      node_store := store_put f (node\<lparr>is_evictable := set_evictable\<rparr>) (node_store r)\<rparr>))"

definition Remove_frame :: "LRUKReplacer \<Rightarrow> frame_id_t \<Rightarrow> error + LRUKReplacer" where
  "Remove_frame r f =
     (case map_of (node_store r) f of
        None \<Rightarrow> Inr r
      | Some node \<Rightarrow>
          if \<not> is_evictable node then Inl RemoveNonEvictable
          else (case history node of
                  [] \<Rightarrow> Inl Undefined
                | t # _ \<Rightarrow>
                    Inr (r\<lparr>lru_less_k := (if length (history node) < replacer_k r
                                           then set_erase (t, f) (lru_less_k r) else lru_less_k r),
                           lru_k := (if length (history node) < replacer_k r
                                     then lru_k r else set_erase (t, f) (lru_k r)),
                           node_store := store_erase f (node_store r),
                           curr_size := curr_size r - 1\<rparr>)))"

definition Size :: "LRUKReplacer \<Rightarrow> 64 word" where
  "Size r = curr_size r"

subsection \<open>The scanning \<^verbatim>\<open>Evict\<close> of the second copy of lru\_k\_replacer.cpp\<close>

text \<open>
  The sources hold a second \<^verbatim>\<open>lru_k_replacer.cpp\<close> (unnamed/part\_003) whose \<^verbatim>\<open>Evict\<close> scans
  \<^verbatim>\<open>node_store_\<close>. The loop state is (\<^verbatim>\<open>have_inf\<close>, \<^verbatim>\<open>have_evict\<close>, \<^verbatim>\<open>mxtime\<close>, the
  out-parameter); \<open>None\<close> for the out-parameter means it was never written.
  \<^verbatim>\<open>history_.front()\<close> of an empty history is undefined.
\<close>

fun Evict_scan :: "nat \<Rightarrow> (frame_id_t \<times> LRUKNode) list \<Rightarrow> bool \<times> bool \<times> 64 word \<times> frame_id_t option
    \<Rightarrow> error + (bool \<times> bool \<times> 64 word \<times> frame_id_t option)" where
  "Evict_scan kk [] st = Inr st"
| "Evict_scan kk ((f, node) # ns) (have_inf, have_evict, mxtime, out) =
     (if \<not> is_evictable node then Evict_scan kk ns (have_inf, have_evict, mxtime, out)
      else if length (history node) < kk then
        (let mx = (if \<not> have_inf then - 1 else mxtime) in
         case history node of
           [] \<Rightarrow> Inl Undefined
         | t # _ \<Rightarrow> if t < mx then Evict_scan kk ns (True, True, t, Some f)
                    else Evict_scan kk ns (True, True, mx, out))
      else if \<not> have_inf then
        (case history node of
           [] \<Rightarrow> Inl Undefined
         | t # _ \<Rightarrow> if t < mxtime then Evict_scan kk ns (have_inf, True, t, Some f)
                    else Evict_scan kk ns (have_inf, True, mxtime, out))
      else Evict_scan kk ns (have_inf, True, mxtime, out))"

definition Evict_part_003 :: "LRUKReplacer \<Rightarrow> error + (frame_id_t option \<times> LRUKReplacer)" where
  "Evict_part_003 r =
     bind_err (Evict_scan (replacer_k r) (node_store r) (False, False, - 1, None))
       (\<lambda>(have_inf, have_evict, mxtime, out).
          if have_evict then
            (case out of
               None \<Rightarrow> Inl Undefined
             | Some f \<Rightarrow> Inr (Some f, r\<lparr>node_store := store_erase f (node_store r),
                                        curr_size := curr_size r - 1\<rparr>))
          else Inr (None, r))"

section \<open>Buffer pool manager (src/buffer/buffer\_pool\_manager.cpp)\<close>

text \<open>
  A \<^verbatim>\<open>Page\<close> (a frame): page id, pin count (an \<^verbatim>\<open>int\<close>), dirty bit, the bytes (of an
  abstract type with a zero for \<^verbatim>\<open>ResetMemory\<close>), and the reader-writer latch, of which
  the model keeps the number of shared holders and whether it is held exclusively.
\<close>

record 'd Page =
  page_id :: page_id_t
  pin_count :: int
  is_dirty :: bool
  data :: 'd
  rlatch_held :: nat
  wlatch_held :: bool

text \<open>
  The manager: the frame array, the page table, the free list, the replacer, the page id
  counter, and the collaborators: the disk (page id to bytes) and the list of ids handed
  to \<^verbatim>\<open>DeallocatePage\<close> (declared in the header, which is not among the sources; the model
  records the call).
\<close>

record 'd BufferPoolManager =
  pool_size :: nat
  pages :: "'d Page list"
  page_table :: "page_id_t \<rightharpoonup> frame_id_t"
  free_list :: "frame_id_t list"
  replacer :: LRUKReplacer
  next_page_id :: page_id_t
  disk :: "page_id_t \<Rightarrow> 'd"
  deallocated :: "page_id_t list"

definition acquire_frame :: "'d BufferPoolManager \<Rightarrow> frame_id_t \<Rightarrow> page_id_t \<Rightarrow> 'd \<Rightarrow> 'd BufferPoolManager" where
  "acquire_frame bpm f pid bytes =
     bpm\<lparr>pages := (pages bpm)[f := (pages bpm ! f)\<lparr>page_id := pid, is_dirty := False,
                                                  pin_count := 1, data := bytes\<rparr>]\<rparr>"

text \<open>\<^verbatim>\<open>replacer_->RecordAccess(frame_id); replacer_->SetEvictable(frame_id, false);\<close>\<close>

definition touch_frame :: "LRUKReplacer \<Rightarrow> frame_id_t \<Rightarrow> error + LRUKReplacer" where
  "touch_frame r f = bind_err (RecordAccess r f) (\<lambda>r1. SetEvictable r1 f False)"

text \<open>\<^verbatim>\<open>if (pages_[frame_id].is_dirty_) disk_manager_->WritePage(...)\<close>\<close>

definition write_back :: "'d BufferPoolManager \<Rightarrow> frame_id_t \<Rightarrow> 'd BufferPoolManager" where
  "write_back bpm f =
     (if is_dirty (pages bpm ! f)
      then bpm\<lparr>disk := (disk bpm)(page_id (pages bpm ! f) := data (pages bpm ! f))\<rparr>
      else bpm)"

text \<open>\<^verbatim>\<open>NewPage(page_id_t *page_id) -> Page *\<close>: the result is the out-parameter and the frame.\<close>

definition NewPage :: "('d::zero) BufferPoolManager \<Rightarrow> error + ('d BufferPoolManager \<times> page_id_t \<times> frame_id_t option)" where
  "NewPage bpm =
     (case free_list bpm of
        f # rest \<Rightarrow>
          if \<not> f < length (pages bpm) then Inl Undefined
          else
            let pid = next_page_id bpm;
                b1 = bpm\<lparr>next_page_id := pid + 1, free_list := rest,
                         page_table := (page_table bpm)(pid \<mapsto> f)\<rparr>;
                b2 = acquire_frame b1 f pid 0
            in bind_err (touch_frame (replacer b2) f)
                 (\<lambda>r. Inr (b2\<lparr>replacer := r\<rparr>, pid, Some f))
      | [] \<Rightarrow>
          (case Evict (replacer bpm) of
             (Some f, r0) \<Rightarrow>
               if \<not> f < length (pages bpm) then Inl Undefined
               else
                 let b0 = write_back (bpm\<lparr>replacer := r0\<rparr>) f;
                     pid = next_page_id b0;
                     old = page_id (pages b0 ! f);
                     b1 = b0\<lparr>next_page_id := pid + 1,
                            page_table := ((page_table b0)(old := None))(pid \<mapsto> f)\<rparr>;
                     b2 = acquire_frame b1 f pid 0
                 in bind_err (touch_frame (replacer b2) f)
                      (\<lambda>r. Inr (b2\<lparr>replacer := r\<rparr>, pid, Some f))
           | (None, r0) \<Rightarrow> Inr (bpm\<lparr>replacer := r0\<rparr>, INVALID_PAGE_ID, None)))"

definition FetchPage :: "'d BufferPoolManager \<Rightarrow> page_id_t \<Rightarrow> error + ('d BufferPoolManager \<times> frame_id_t option)" where
  "FetchPage bpm pid =
     (if pid = INVALID_PAGE_ID then Inr (bpm, None)
      else case page_table bpm pid of
        Some f \<Rightarrow>
          if \<not> f < length (pages bpm) then Inl Undefined
          else
            let b1 = bpm\<lparr>pages := (pages bpm)[f := (pages bpm ! f)\<lparr>pin_count := pin_count (pages bpm ! f) + 1\<rparr>]\<rparr>
            in bind_err (touch_frame (replacer b1) f)
                 (\<lambda>r. Inr (b1\<lparr>replacer := r\<rparr>, Some f))
      | None \<Rightarrow>
          (case free_list bpm of
             f # rest \<Rightarrow>
               if \<not> f < length (pages bpm) then Inl Undefined
               else
                 let b1 = bpm\<lparr>free_list := rest, page_table := (page_table bpm)(pid \<mapsto> f)\<rparr>
                 in bind_err (touch_frame (replacer b1) f)
                      (\<lambda>r. Inr (acquire_frame (b1\<lparr>replacer := r\<rparr>) f pid (disk b1 pid), Some f))
           | [] \<Rightarrow>
               (case Evict (replacer bpm) of
                  (Some f, r0) \<Rightarrow>
                    if \<not> f < length (pages bpm) then Inl Undefined
                    else
                      let b0 = write_back (bpm\<lparr>replacer := r0\<rparr>) f;
                          old = page_id (pages b0 ! f);
                          b1 = b0\<lparr>page_table := ((page_table b0)(old := None))(pid \<mapsto> f)\<rparr>
                      in bind_err (touch_frame (replacer b1) f)
                           (\<lambda>r. Inr (acquire_frame (b1\<lparr>replacer := r\<rparr>) f pid (disk b1 pid), Some f))
                | (None, r0) \<Rightarrow> Inr (bpm\<lparr>replacer := r0\<rparr>, None))))"

definition UnpinPage :: "'d BufferPoolManager \<Rightarrow> page_id_t \<Rightarrow> bool \<Rightarrow> error + ('d BufferPoolManager \<times> bool)" where
  "UnpinPage bpm pid dirty =
     (if pid = INVALID_PAGE_ID then Inr (bpm, False)
      else case page_table bpm pid of
        None \<Rightarrow> Inr (bpm, False)
      | Some f \<Rightarrow>
          if \<not> f < length (pages bpm) then Inl Undefined
          else if pin_count (pages bpm ! f) \<noteq> 0 then
            let pc = pin_count (pages bpm ! f) - 1
            in bind_err (if pc = 0 then SetEvictable (replacer bpm) f True else Inr (replacer bpm))
                 (\<lambda>r. Inr (bpm\<lparr>replacer := r,
                                pages := (pages bpm)[f := (pages bpm ! f)
                                   \<lparr>pin_count := pc, is_dirty := (is_dirty (pages bpm ! f) \<or> dirty)\<rparr>]\<rparr>,
                            True))
          else Inr (bpm, False))"

definition FlushPage :: "'d BufferPoolManager \<Rightarrow> page_id_t \<Rightarrow> error + ('d BufferPoolManager \<times> bool)" where
  "FlushPage bpm pid =
     (if pid = INVALID_PAGE_ID then Inr (bpm, False)
      else case page_table bpm pid of
        Some f \<Rightarrow>
          if \<not> f < length (pages bpm) then Inl Undefined
          else Inr (bpm\<lparr>disk := (disk bpm)(pid := data (pages bpm ! f)),
                       pages := (pages bpm)[f := (pages bpm ! f)\<lparr>is_dirty := False\<rparr>]\<rparr>, True)
      | None \<Rightarrow> Inr (bpm, False))"

definition DeletePage :: "('d::zero) BufferPoolManager \<Rightarrow> page_id_t \<Rightarrow> error + ('d BufferPoolManager \<times> bool)" where
  "DeletePage bpm pid =
     (if pid = INVALID_PAGE_ID then Inr (bpm, False)
      else case page_table bpm pid of
        None \<Rightarrow> Inr (bpm, True)
      | Some f \<Rightarrow>
          if \<not> f < length (pages bpm) then Inl Undefined
          else if pin_count (pages bpm ! f) > 0 then Inr (bpm, False)
          else
            let b0 = (if is_dirty (pages bpm ! f)
                      then bpm\<lparr>disk := (disk bpm)(pid := data (pages bpm ! f))\<rparr> else bpm)
            in bind_err (Remove_frame (replacer b0) f)
                 (\<lambda>r. Inr (b0\<lparr>replacer := r,
                                page_table := (page_table b0)(pid := None),
                                pages := (pages b0)[f := (pages b0 ! f)
                                   \<lparr>page_id := INVALID_PAGE_ID, pin_count := 0,
                                    is_dirty := False, data := 0\<rparr>],
                                free_list := free_list b0 @ [f],
                                deallocated := deallocated b0 @ [pid]\<rparr>,
                            True)))"

section \<open>Page guards (storage/page/page\_guard.cpp, in unnamed/part\_001)\<close>

text \<open>
  A guard holds the manager pointer, the frame pointer (\<open>None\<close> is \<^verbatim>\<open>nullptr\<close>) and its
  dirty flag. The manager is passed explicitly, so \<^verbatim>\<open>bpm_\<close> is whether the pointer is set.
  \<^verbatim>\<open>Drop\<close> also returns the calls it makes on the manager and on the frame's latch, in
  the order in which it makes them.
\<close>

record PageGuard =
  g_bpm :: bool
  g_page :: "frame_id_t option"
  g_is_dirty :: bool

datatype call = CallUnpinPage page_id_t bool | CallRUnlatch frame_id_t | CallWUnlatch frame_id_t

definition RUnlatch :: "'d BufferPoolManager \<Rightarrow> frame_id_t \<Rightarrow> 'd BufferPoolManager" where
  "RUnlatch bpm f = bpm\<lparr>pages := (pages bpm)[f := (pages bpm ! f)\<lparr>rlatch_held := rlatch_held (pages bpm ! f) - 1\<rparr>]\<rparr>"

definition WUnlatch :: "'d BufferPoolManager \<Rightarrow> frame_id_t \<Rightarrow> 'd BufferPoolManager" where
  "WUnlatch bpm f = bpm\<lparr>pages := (pages bpm)[f := (pages bpm ! f)\<lparr>wlatch_held := False\<rparr>]\<rparr>"

definition BasicPageGuard_Drop :: "PageGuard \<Rightarrow> 'd BufferPoolManager
    \<Rightarrow> error + (call list \<times> PageGuard \<times> 'd BufferPoolManager)" where
  "BasicPageGuard_Drop g bpm =
     (case g_page g of
        None \<Rightarrow> Inr ([], g, bpm)
      | Some f \<Rightarrow>
          if \<not> f < length (pages bpm) then Inl Undefined
          else
            let pid = page_id (pages bpm ! f)
            in bind_err (UnpinPage bpm pid (g_is_dirty g))
                 (\<lambda>(b1, _). Inr ([CallUnpinPage pid (g_is_dirty g)],
                                  g\<lparr>g_bpm := False, g_page := None\<rparr>, b1)))"

definition ReadPageGuard_Drop :: "PageGuard \<Rightarrow> 'd BufferPoolManager
    \<Rightarrow> error + (call list \<times> PageGuard \<times> 'd BufferPoolManager)" where
  "ReadPageGuard_Drop g bpm =
     (case g_page g of
        None \<Rightarrow> Inr ([], g, bpm)
      | Some f \<Rightarrow>
          if \<not> f < length (pages bpm) then Inl Undefined
          else
            let pid = page_id (pages bpm ! f)
            in bind_err (UnpinPage bpm pid (g_is_dirty g))
                 (\<lambda>(b1, _). Inr ([CallUnpinPage pid (g_is_dirty g), CallRUnlatch f],
                                  g\<lparr>g_bpm := False, g_page := None\<rparr>, RUnlatch b1 f)))"

definition WritePageGuard_Drop :: "PageGuard \<Rightarrow> 'd BufferPoolManager
    \<Rightarrow> error + (call list \<times> PageGuard \<times> 'd BufferPoolManager)" where
  "WritePageGuard_Drop g bpm =
     (case g_page g of
        None \<Rightarrow> Inr ([], g, bpm)
      | Some f \<Rightarrow>
          if \<not> f < length (pages bpm) then Inl Undefined
          else
            let pid = page_id (pages bpm ! f)
            in bind_err (UnpinPage bpm pid (g_is_dirty g))
                 (\<lambda>(b1, _). Inr ([CallUnpinPage pid (g_is_dirty g), CallWUnlatch f],
                                  g\<lparr>g_bpm := False, g_page := None\<rparr>, WUnlatch b1 f)))"

section \<open>Initial states and well-formed manager states\<close>

text \<open>
  The constructors. A fresh \<^verbatim>\<open>Page\<close> has page id \<^verbatim>\<open>INVALID_PAGE_ID\<close>, pin count 0 and is
  clean; every frame starts in the free list; \<^verbatim>\<open>next_page_id_\<close> starts at 0.
\<close>

definition LRUKReplacer_init :: "nat \<Rightarrow> nat \<Rightarrow> LRUKReplacer" where
  "LRUKReplacer_init num_frames kk =
     \<lparr>node_store = [], lru_less_k = [], lru_k = [], current_timestamp = 0, curr_size = 0,
      replacer_size = num_frames, replacer_k = kk\<rparr>"

definition Page_init :: "('d::zero) Page" where
  "Page_init = \<lparr>page_id = INVALID_PAGE_ID, pin_count = 0, is_dirty = False, data = 0,
                rlatch_held = 0, wlatch_held = False\<rparr>"

definition BufferPoolManager_init :: "nat \<Rightarrow> nat \<Rightarrow> (page_id_t \<Rightarrow> 'd) \<Rightarrow> ('d::zero) BufferPoolManager" where
  "BufferPoolManager_init n kk dsk =
     \<lparr>pool_size = n, pages = replicate n Page_init, page_table = Map.empty,
      free_list = [0..<n], replacer = LRUKReplacer_init n kk,
      next_page_id = 0, disk = dsk, deallocated = []\<rparr>"

text \<open>
  What the data model of the manager says of a state at rest, as far as the operations
  below need it: the frame array and the replacer have \<^verbatim>\<open>pool_size_\<close> slots; the sentinel
  is not resident; an entry of the page table names a frame of the array that holds that
  page, with a pin count that is not negative, and the replacer knows the frame, with a
  history that is not empty and the evictable flag set exactly when the pin count is 0.
\<close>

definition bpm_wf :: "'d BufferPoolManager \<Rightarrow> bool" where
  "bpm_wf bpm \<longleftrightarrow>
     length (pages bpm) = pool_size bpm \<and>
     replacer_size (replacer bpm) = pool_size bpm \<and>
     page_table bpm INVALID_PAGE_ID = None \<and>
     (\<forall>pid f. page_table bpm pid = Some f \<longrightarrow>
        f < pool_size bpm \<and> page_id (pages bpm ! f) = pid \<and> 0 \<le> pin_count (pages bpm ! f) \<and>
        (\<exists>n. map_of (node_store (replacer bpm)) f = Some n \<and> history n \<noteq> [] \<and>
             (is_evictable n \<longleftrightarrow> pin_count (pages bpm ! f) = 0)))"

text \<open>A pool of two frames in which page 0 sits in frame 0, pinned once (after one \<^verbatim>\<open>NewPage\<close>).\<close>

definition bpm_one_page :: "nat BufferPoolManager" where
  "bpm_one_page =
     \<lparr>pool_size = 2,
      pages = [\<lparr>page_id = 0, pin_count = 1, is_dirty = False, data = 0,
                rlatch_held = 0, wlatch_held = False\<rparr>, Page_init],
      page_table = [0 \<mapsto> 0],
      free_list = [1],
      replacer = \<lparr>node_store = [(0, \<lparr>history = [1], is_evictable = False\<rparr>)],
                  lru_less_k = [(1, 0)], lru_k = [], current_timestamp = 1, curr_size = 0,
                  replacer_size = 2, replacer_k = 2\<rparr>,
      next_page_id = 1, disk = (\<lambda>_. 0), deallocated = []\<rparr>"

text \<open>Whether the replacer knows a frame and has it marked evictable.\<close>

definition frame_evictable :: "LRUKReplacer \<Rightarrow> frame_id_t \<Rightarrow> bool" where
  "frame_evictable r f = (case map_of (node_store r) f of None \<Rightarrow> False | Some n \<Rightarrow> is_evictable n)"

section \<open>Guard factories of the manager\<close>

text \<open>
  \<^verbatim>\<open>RLatch\<close> and \<^verbatim>\<open>WLatch\<close> of a frame. The model is sequential: a latch that is free is
  taken; waiting for a latch held by another thread is not modelled.
\<close>

definition RLatch :: "'d BufferPoolManager \<Rightarrow> frame_id_t \<Rightarrow> 'd BufferPoolManager" where
  "RLatch bpm f = bpm\<lparr>pages := (pages bpm)[f := (pages bpm ! f)\<lparr>rlatch_held := rlatch_held (pages bpm ! f) + 1\<rparr>]\<rparr>"

definition WLatch :: "'d BufferPoolManager \<Rightarrow> frame_id_t \<Rightarrow> 'd BufferPoolManager" where
  "WLatch bpm f = bpm\<lparr>pages := (pages bpm)[f := (pages bpm ! f)\<lparr>wlatch_held := True\<rparr>]\<rparr>"

definition new_guard :: "frame_id_t option \<Rightarrow> PageGuard" where
  "new_guard page = \<lparr>g_bpm = True, g_page = page, g_is_dirty = False\<rparr>"

definition FetchPageBasic :: "'d BufferPoolManager \<Rightarrow> page_id_t \<Rightarrow> error + ('d BufferPoolManager \<times> PageGuard)" where
  "FetchPageBasic bpm pid = bind_err (FetchPage bpm pid) (\<lambda>(b, page). Inr (b, new_guard page))"

definition FetchPageRead :: "'d BufferPoolManager \<Rightarrow> page_id_t \<Rightarrow> error + ('d BufferPoolManager \<times> PageGuard)" where
  "FetchPageRead bpm pid =
     bind_err (FetchPage bpm pid)
       (\<lambda>(b, page). Inr (case page of None \<Rightarrow> b | Some f \<Rightarrow> RLatch b f, new_guard page))"

definition FetchPageWrite :: "'d BufferPoolManager \<Rightarrow> page_id_t \<Rightarrow> error + ('d BufferPoolManager \<times> PageGuard)" where
  "FetchPageWrite bpm pid =
     bind_err (FetchPage bpm pid)
       (\<lambda>(b, page). Inr (case page of None \<Rightarrow> b | Some f \<Rightarrow> WLatch b f, new_guard page))"

definition NewPageGuarded :: "('d::zero) BufferPoolManager \<Rightarrow> error + ('d BufferPoolManager \<times> page_id_t \<times> PageGuard)" where
  "NewPageGuarded bpm = bind_err (NewPage bpm) (\<lambda>(b, pid, page). Inr (b, pid, new_guard page))"

text \<open>The calls made by a \<^verbatim>\<open>Drop\<close> that returned, in order.\<close>

definition drop_calls :: "error + (call list \<times> PageGuard \<times> 'd BufferPoolManager) \<Rightarrow> call list" where
  "drop_calls r = (case r of Inl _ \<Rightarrow> [] | Inr (cs, _) \<Rightarrow> cs)"

text \<open>Page 0 of \<open>bpm_one_page\<close> fetched once more under a read guard.\<close>

definition bpm_read_latched :: "nat BufferPoolManager" where
  "bpm_read_latched =
     bpm_one_page\<lparr>pages := [\<lparr>page_id = 0, pin_count = 2, is_dirty = False, data = 0,
                              rlatch_held = 1, wlatch_held = False\<rparr>, Page_init],
                  replacer := \<lparr>node_store = [(0, \<lparr>history = [1, 2], is_evictable = False\<rparr>)],
                     lru_less_k = [], lru_k = [(1, 0)], current_timestamp = 2, curr_size = 0,
                     replacer_size = 2, replacer_k = 2\<rparr>\<rparr>"

section \<open>The eviction policy, in the words of the specification\<close>

definition oldest :: "LRUKNode \<Rightarrow> 64 word" where
  "oldest n = hd (history n)"

definition evictable_nodes :: "(frame_id_t \<times> LRUKNode) list \<Rightarrow> (frame_id_t \<times> LRUKNode) list" where
  "evictable_nodes ns = filter (\<lambda>p. is_evictable (snd p)) ns"

text \<open>
  Frame \<open>f\<close> is a victim of the policy: it is evictable; if some evictable frame has a
  history shorter than \<open>k\<close>, then \<open>f\<close> is such a frame and none of those has a smaller
  oldest time stamp; if none has, then no evictable frame has a smaller oldest time stamp.
\<close>

definition lruk_victim :: "nat \<Rightarrow> (frame_id_t \<times> LRUKNode) list \<Rightarrow> frame_id_t \<Rightarrow> bool" where
  "lruk_victim kk ns f =
     (case map_of ns f of
        None \<Rightarrow> False
      | Some n \<Rightarrow>
          is_evictable n \<and>
          (let ev = evictable_nodes ns;
               inf = filter (\<lambda>p. length (history (snd p)) < kk) ev
           in if inf \<noteq> [] then length (history n) < kk \<and> list_all (\<lambda>p. oldest n \<le> oldest (snd p)) inf
              else list_all (\<lambda>p. oldest n \<le> oldest (snd p)) ev))"

text \<open>
  The states of the replacer with the two ordered sets: every node has a history, each
  frame has one node, \<^verbatim>\<open>lru_less_k_\<close> holds (oldest time stamp, frame) of the nodes with
  fewer than \<open>k\<close> accesses and \<^verbatim>\<open>lru_k_\<close> those of the others, both in ascending order.
\<close>

definition set_keys :: "(frame_id_t \<times> LRUKNode) list \<Rightarrow> (64 word \<times> frame_id_t) list" where
  "set_keys ns = map (\<lambda>p. (oldest (snd p), fst p)) ns"

definition replacer_inv :: "LRUKReplacer \<Rightarrow> bool" where
  "replacer_inv r \<longleftrightarrow>
     distinct (map fst (node_store r)) \<and>
     list_all (\<lambda>p. history (snd p) \<noteq> []) (node_store r) \<and>
     sorted_wrt pair_less (lru_less_k r) \<and>
     sorted_wrt pair_less (lru_k r) \<and>
     set (lru_less_k r) = set (set_keys (filter (\<lambda>p. length (history (snd p)) < replacer_k r) (node_store r))) \<and>
     set (lru_k r) = set (set_keys (filter (\<lambda>p. \<not> length (history (snd p)) < replacer_k r) (node_store r)))"

text \<open>
  The states of the scanning replacer: every node has a history, whose oldest time stamp
  is below \<^verbatim>\<open>UINT64_MAX\<close>, and each frame has one node.
\<close>

definition scan_inv :: "LRUKReplacer \<Rightarrow> bool" where
  "scan_inv r \<longleftrightarrow>
     distinct (map fst (node_store r)) \<and>
     list_all (\<lambda>p. history (snd p) \<noteq> [] \<and> oldest (snd p) < - 1) (node_store r)"

text \<open>What the loop of the scanning \<^verbatim>\<open>Evict\<close> has established after the nodes \<open>seen\<close>.\<close>

definition scan_state_ok :: "nat \<Rightarrow> (frame_id_t \<times> LRUKNode) list
    \<Rightarrow> bool \<times> bool \<times> 64 word \<times> frame_id_t option \<Rightarrow> bool" where
  "scan_state_ok kk seen st =
     (case st of (have_inf, have_evict, mxtime, out) \<Rightarrow>
        (have_evict \<longleftrightarrow> (\<exists>p\<in>set seen. is_evictable (snd p))) \<and>
        (have_inf \<longleftrightarrow> (\<exists>p\<in>set seen. is_evictable (snd p) \<and> length (history (snd p)) < kk)) \<and>
        (if have_evict
         then (\<exists>n. (case out of None \<Rightarrow> False | Some f \<Rightarrow> (f, n) \<in> set seen) \<and>
                 is_evictable n \<and> oldest n = mxtime \<and>
                 (if have_inf
                  then length (history n) < kk \<and>
                       (\<forall>p\<in>set seen. is_evictable (snd p) \<and> length (history (snd p)) < kk
                           \<longrightarrow> mxtime \<le> oldest (snd p))
                  else (\<forall>p\<in>set seen. is_evictable (snd p) \<longrightarrow> mxtime \<le> oldest (snd p))))
         else out = None \<and> mxtime = - 1))"

text \<open>
  A replacer with three frames: frame 0 accessed twice and frame 1 once (both evictable),
  frame 2 accessed once and pinned; \<open>k = 2\<close>.
\<close>

definition replacer_three :: LRUKReplacer where
  "replacer_three =
     \<lparr>node_store = [(0, \<lparr>history = [1, 4], is_evictable = True\<rparr>),
                    (1, \<lparr>history = [2], is_evictable = True\<rparr>),
                    (2, \<lparr>history = [3], is_evictable = False\<rparr>)],
      lru_less_k = [(2, 1), (3, 2)], lru_k = [(1, 0)],
      current_timestamp = 4, curr_size = 2, replacer_size = 3, replacer_k = 2\<rparr>"

section \<open>B+ tree pages (b\_plus\_tree\_leaf\_page.cpp in unnamed/part\_001, b\_plus\_tree\_internal\_page.cpp)\<close>

text \<open>
  Keys are of a linear order (\<^verbatim>\<open>comparator(a, b)\<close> is negative, zero or positive as
  \<open>a < b\<close>, \<open>a = b\<close> or \<open>a > b\<close>). A page keeps \<^verbatim>\<open>max_size_\<close> and its slots; \<^verbatim>\<open>size_\<close> is the
  length of the list of slots: no function reads a slot at or beyond \<^verbatim>\<open>size_\<close>
  (\<^verbatim>\<open>KeyAt\<close> and \<^verbatim>\<open>ValueAt\<close> assert \<^verbatim>\<open>index < GetSize()\<close>, and the loops that use \<^verbatim>\<open>array_\<close>
  directly stay below it), so the stale slots are left out. \<^verbatim>\<open>Init\<close> asserts that
  \<^verbatim>\<open>max_size\<close> fits the page, so a \<^verbatim>\<open>max_size_\<close> is a \<open>nat\<close>.
\<close>

record ('k, 'v) LeafPage =
  l_max_size :: nat
  l_next_page_id :: page_id_t
  l_array :: "('k \<times> 'v) list"

record 'k InternalPage =
  i_max_size :: nat
  i_array :: "('k \<times> page_id_t) list"

datatype ('k, 'v) TreePage = Leaf "('k, 'v) LeafPage" | Internal "'k InternalPage"

text \<open>
  Modelled from the spec: \<^verbatim>\<open>BPlusTreePage::GetMinSize\<close> is defined in
  \<^verbatim>\<open>b_plus_tree_page.cpp\<close>, which is not among the sources. The spec gives
  \<open>min_size = \<lceil>max_size / 2\<rceil>\<close> for each node, where an internal page is initialised with
  \<^verbatim>\<open>internal_max_size_ + 1\<close>.
\<close>

definition GetMinSize :: "nat \<Rightarrow> nat" where
  "GetMinSize max_size = (max_size + 1) div 2"

text \<open>\<^verbatim>\<open>BPlusTreeLeafPage::GetValue\<close>: the first slot that is the last one or whose successor's
  key is above \<open>key\<close> decides.\<close>

fun leaf_GetValue :: "'k::linorder \<Rightarrow> ('k \<times> 'v) list \<Rightarrow> 'v option" where
  "leaf_GetValue key [] = None"
| "leaf_GetValue key [(k, v)] = (if key = k then Some v else None)"
| "leaf_GetValue key ((k, v) # (k', v') # rest) =
     (if key < k' then (if key = k then Some v else None)
      else leaf_GetValue key ((k', v') # rest))"

text \<open>
  The insertion loop shared by the two \<^verbatim>\<open>Insert\<close>s: from the end of the array towards
  slot 0, a slot whose key is not below \<open>key\<close> moves one place up; the new pair goes
  after the first slot (from the end) whose key is below \<open>key\<close>, or to slot 0.
  \<open>insert_from_back\<close> works on the reversed array.
\<close>

fun insert_from_back :: "'k::linorder \<Rightarrow> 'a \<Rightarrow> ('k \<times> 'a) list \<Rightarrow> ('k \<times> 'a) list" where
  "insert_from_back key value [] = [(key, value)]"
| "insert_from_back key value (x # xs) =
     (if fst x < key then (key, value) # x # xs else x # insert_from_back key value xs)"

definition array_Insert :: "'k::linorder \<Rightarrow> 'a \<Rightarrow> ('k \<times> 'a) list \<Rightarrow> ('k \<times> 'a) list" where
  "array_Insert key value arr = rev (insert_from_back key value (rev arr))"

text \<open>\<^verbatim>\<open>BPlusTreeLeafPage::Insert\<close>: \<open>None\<close> is the result false (the key is in the page).\<close>

definition leaf_Insert :: "'k::linorder \<Rightarrow> 'v \<Rightarrow> ('k \<times> 'v) list \<Rightarrow> ('k \<times> 'v) list option" where
  "leaf_Insert key value arr =
     (if key \<in> fst ` set arr then None else Some (array_Insert key value arr))"

text \<open>\<^verbatim>\<open>BPlusTreeInternalPage::Insert\<close> has no test for an equal key.\<close>

definition internal_Insert :: "'k::linorder \<Rightarrow> page_id_t \<Rightarrow> ('k \<times> page_id_t) list \<Rightarrow> ('k \<times> page_id_t) list" where
  "internal_Insert key value arr = array_Insert key value arr"

text \<open>\<^verbatim>\<open>BPlusTreeLeafPage::Remove\<close>: the slots after the first one with the key move down;
  without such a slot nothing changes (and the result is false).\<close>

fun leaf_Remove :: "'k \<Rightarrow> ('k \<times> 'v) list \<Rightarrow> ('k \<times> 'v) list" where
  "leaf_Remove key [] = []"
| "leaf_Remove key (x # xs) = (if key = fst x then xs else x # leaf_Remove key xs)"



text \<open>A page as the store has it, with its size field.\<close>

definition sized :: "'a list \<Rightarrow> int \<times> 'a list" where
  "sized arr = (int (length arr), arr)"

text \<open>\<^verbatim>\<open>Split\<close> of both page kinds: \<^verbatim>\<open>offset = (size + 1) >> 1\<close>; the slots from \<open>offset\<close> on
  go to the new page.\<close>

definition split_offset :: "nat \<Rightarrow> nat" where
  "split_offset sz = (sz + 1) div 2"

definition array_Split :: "'a list \<Rightarrow> 'a list \<times> 'a list" where
  "array_Split arr = (take (split_offset (length arr)) arr, drop (split_offset (length arr)) arr)"

text \<open>\<^verbatim>\<open>if (comparator_(page->KeyAt(0), key) > 0) page->SetKeyAt(0, key);\<close> on a page that
  is not empty.\<close>

definition lower_first :: "'k::linorder \<Rightarrow> ('k \<times> 'a) list \<Rightarrow> ('k \<times> 'a) list" where
  "lower_first key arr = (if key < fst (hd arr) then (key, snd (hd arr)) # tl arr else arr)"

text \<open>The child followed by the descent loops: the first slot that is the last one or
  whose successor's key is above \<open>key\<close>. An empty page has no such slot.\<close>

fun child_index :: "'k::linorder \<Rightarrow> ('k \<times> 'a) list \<Rightarrow> nat option" where
  "child_index key [] = None"
| "child_index key [x] = Some 0"
| "child_index key (x # y # rest) =
     (if key < fst y then Some 0 else map_option Suc (child_index key (y # rest)))"

text \<open>
  \<^verbatim>\<open>Merge(right_page, l_key, r_key, remove)\<close> of a leaf and of an internal page, called on
  the left page: borrow the last slot of the left page, or the first of the right page,
  or move all slots of the right page to the left. The result is the two arrays,
  \<^verbatim>\<open>l_key\<close>, and \<^verbatim>\<open>r_key\<close>, which is written exactly when \<^verbatim>\<open>remove\<close> is set to false: \<open>None\<close>
  for \<^verbatim>\<open>r_key\<close> stands for \<^verbatim>\<open>remove = true\<close>. \<^verbatim>\<open>KeyAt(0)\<close> of an empty page fails its
  assertion (the result \<open>None\<close>). The results of the calls of \<^verbatim>\<open>Remove\<close> and \<^verbatim>\<open>Insert\<close>
  are ignored, as in the source. The internal pages come with their size fields; when
  \<^verbatim>\<open>Merge\<close> returns, both calls of \<^verbatim>\<open>KeyAt(0)\<close> have passed or the size of the right page
  has been set to 0, so the sizes of the two resulting pages are not negative.
\<close>

definition first_key :: "('k \<times> 'a) list \<Rightarrow> 'k option" where
  "first_key arr = (case arr of [] \<Rightarrow> None | x # _ \<Rightarrow> Some (fst x))"





section \<open>B+ tree (src/storage/index/b\_plus\_tree.cpp)\<close>

text \<open>
  The tree reaches its pages through guards of the buffer pool. Here the pool together
  with the disk is a store from page ids to page contents: a fetch of a page id that
  holds no tree page, or a page of the other kind than the code casts it to, is
  undefined (\<open>None\<close>). \<^verbatim>\<open>NewPage\<close> hands out \<^verbatim>\<open>next_page_id_\<close>, or returns \<^verbatim>\<open>nullptr\<close> when the
  pool has no frame left; then the tree code dereferences a null page. Whether the pool
  has a frame for the next page id is the field \<open>new_page_ok\<close>. The capacities
  \<^verbatim>\<open>LEAF_PAGE_SIZE\<close> and \<^verbatim>\<open>INTERNAL_PAGE_SIZE\<close>, against which \<^verbatim>\<open>Init\<close> of the two page
  classes asserts the maximum size, are constants of the page headers and depend on the
  key type: they are the fields \<open>leaf_page_size\<close> and \<open>internal_page_size\<close>. The header page
  holds \<^verbatim>\<open>root_page_id_\<close>. The operations are those of one thread, so latches do not block.
\<close>

record ('k, 'v) BPlusTree =
  root_page_id :: page_id_t
  bt_pages :: "page_id_t \<rightharpoonup> ('k, 'v) TreePage"
  bt_next_page_id :: page_id_t
  leaf_max_size :: nat
  internal_max_size :: nat
  leaf_page_size :: nat
  internal_page_size :: nat
  new_page_ok :: "page_id_t \<Rightarrow> bool"

text \<open>An empty tree: the maximum sizes, the two capacities, the pool's answer to
  \<^verbatim>\<open>NewPage\<close> for each page id, and the next page id of the pool.\<close>

definition BPlusTree_init :: "nat \<Rightarrow> nat \<Rightarrow> nat \<Rightarrow> nat \<Rightarrow> (page_id_t \<Rightarrow> bool) \<Rightarrow> page_id_t
    \<Rightarrow> ('k, 'v) BPlusTree" where
  "BPlusTree_init leaf_max internal_max leaf_cap internal_cap grants next =
     \<lparr>root_page_id = INVALID_PAGE_ID, bt_pages = Map.empty, bt_next_page_id = next,
      leaf_max_size = leaf_max, internal_max_size = internal_max,
      leaf_page_size = leaf_cap, internal_page_size = internal_cap, new_page_ok = grants\<rparr>"

definition IsEmpty :: "('k, 'v) BPlusTree \<Rightarrow> bool" where
  "IsEmpty t \<longleftrightarrow> root_page_id t = INVALID_PAGE_ID"

text \<open>
  The loop of \<^verbatim>\<open>FindLeaf\<close>, from page \<open>pid\<close> on; the result is the page id of the leaf
  that ends the descent. When the loop ends on \<^verbatim>\<open>INVALID_PAGE_ID\<close> the callers read the
  last page as a leaf (undefined); on an empty internal page the loop fetches the same
  page for ever.
\<close>

partial_function (option) FindLeaf_loop ::
  "(page_id_t \<rightharpoonup> ('k::linorder, 'v) TreePage) \<Rightarrow> 'k \<Rightarrow> page_id_t \<Rightarrow> page_id_t option" where
  "FindLeaf_loop pg key pid =
     (if pid = INVALID_PAGE_ID then None
      else case pg pid of
        None \<Rightarrow> None
      | Some (Leaf l) \<Rightarrow> Some pid
      | Some (Internal n) \<Rightarrow>
          (case child_index key (i_array n) of
             None \<Rightarrow> FindLeaf_loop pg key pid
           | Some i \<Rightarrow> FindLeaf_loop pg key (snd (i_array n ! i))))"

definition FindLeaf :: "('k::linorder, 'v) BPlusTree \<Rightarrow> 'k \<Rightarrow> page_id_t option" where
  "FindLeaf t key = FindLeaf_loop (bt_pages t) key (root_page_id t)"

text \<open>\<^verbatim>\<open>GetValue\<close>: the outer option is whether the call returns, the inner one the result
  (\<open>None\<close> for false, \<open>Some v\<close> for true with \<open>v\<close> pushed to \<^verbatim>\<open>result\<close>).\<close>

definition GetValue :: "('k::linorder, 'v) BPlusTree \<Rightarrow> 'k \<Rightarrow> 'v option option" where
  "GetValue t key =
     (if IsEmpty t then Some None
      else do {
        leaf_id \<leftarrow> FindLeaf t key;
        case bt_pages t leaf_id of
          Some (Leaf l) \<Rightarrow> Some (leaf_GetValue key (l_array l))
        | _ \<Rightarrow> None })"

text \<open>
  The \<^verbatim>\<open>Context\<close> of a write operation: whether the guard of the header page is held,
  and the deques \<^verbatim>\<open>write_set_\<close> (page ids of the guards) and \<^verbatim>\<open>index_\<close> (sibling page id,
  own index, whether the sibling is the right one). Both grow and shrink at the back;
  the lists hold them back first. (\<^verbatim>\<open>root_page_id_\<close> is written and never read.)
\<close>

record Context =
  header_held :: bool
  write_set :: "page_id_t list"
  index :: "(page_id_t \<times> nat \<times> bool) list"

text \<open>\<^verbatim>\<open>ctx.header_page_->Drop(); while (ctx.write_set_.size() != 1) ctx.write_set_.pop_front();\<close>\<close>

definition release_ancestors :: "Context \<Rightarrow> Context" where
  "release_ancestors ctx = ctx\<lparr>header_held := False, write_set := [hd (write_set ctx)]\<rparr>"

definition sibling_hint :: "('k \<times> page_id_t) list \<Rightarrow> nat \<Rightarrow> page_id_t \<times> nat \<times> bool" where
  "sibling_hint arr i =
     (if i = length arr - 1
      then (if i = 0 then INVALID_PAGE_ID else snd (arr ! (i - 1)), i, False)
      else (snd (arr ! (i + 1)), i, True))"

text \<open>The loop of \<^verbatim>\<open>FindLeafMut\<close>, from page \<open>pid\<close> on. On an empty internal page
  \<^verbatim>\<open>KeyAt(0)\<close> fails (insertion) or the loop fetches the page it has latched (removal).\<close>

partial_function (option) FindLeafMut_loop ::
  "'k::linorder \<Rightarrow> bool \<Rightarrow> ('k, 'v) BPlusTree \<times> Context \<Rightarrow> page_id_t
     \<Rightarrow> (('k, 'v) BPlusTree \<times> Context) option" where
  "FindLeafMut_loop key remove_flag st pid =
     (if pid = INVALID_PAGE_ID then None
      else case bt_pages (fst st) pid of
        None \<Rightarrow> None
      | Some (Leaf l) \<Rightarrow> Some (fst st, (snd st)\<lparr>write_set := pid # write_set (snd st)\<rparr>)
      | Some (Internal n) \<Rightarrow>
          (let ctx0 = (snd st)\<lparr>write_set := pid # write_set (snd st)\<rparr>;
               arr = i_array n
           in case child_index key arr of
                None \<Rightarrow> None
              | Some i \<Rightarrow>
                  if remove_flag then
                    (let ctx1 = (if length arr > GetMinSize (i_max_size n)
                                 then release_ancestors ctx0 else ctx0);
                         ctx2 = ctx1\<lparr>index := sibling_hint arr i # index ctx1\<rparr>
                     in FindLeafMut_loop key remove_flag (fst st, ctx2) (snd (arr ! i)))
                  else
                    (let arr1 = lower_first key arr;
                         t1 = (fst st)\<lparr>bt_pages := (bt_pages (fst st))(pid \<mapsto> Internal (n\<lparr>i_array := arr1\<rparr>))\<rparr>;
                         ctx1 = (if length arr + 1 < i_max_size n
                                 then release_ancestors ctx0 else ctx0)
                     in FindLeafMut_loop key remove_flag (t1, ctx1) (snd (arr ! i)))))"

definition FindLeafMut :: "'k::linorder \<Rightarrow> bool \<Rightarrow> ('k, 'v) BPlusTree \<Rightarrow> (('k, 'v) BPlusTree \<times> Context) option" where
  "FindLeafMut key remove_flag t =
     FindLeafMut_loop key remove_flag
       (t, \<lparr>header_held = True, write_set = [], index = [(INVALID_PAGE_ID, 0, False)]\<rparr>)
       (root_page_id t)"

text \<open>
  \<^verbatim>\<open>NewLeafPage\<close> and \<^verbatim>\<open>NewInternalPage\<close>: the new page id and the tree with the
  initialised page. When \<^verbatim>\<open>NewPage\<close> returns \<^verbatim>\<open>nullptr\<close> the page id is \<^verbatim>\<open>INVALID_PAGE_ID\<close>,
  the guard of \<^verbatim>\<open>FetchPageWrite\<close> holds no page and \<^verbatim>\<open>AsMut\<close> dereferences null; \<^verbatim>\<open>Init\<close>
  asserts that the maximum size (\<^verbatim>\<open>internal_max_size_ + 1\<close> for an internal page) is at
  most the capacity of the page. Both are \<open>None\<close>.
\<close>

definition NewLeafPage :: "('k, 'v) BPlusTree \<Rightarrow> (page_id_t \<times> ('k, 'v) BPlusTree) option" where
  "NewLeafPage t =
     (if \<not> new_page_ok t (bt_next_page_id t) then None
      else if \<not> leaf_max_size t \<le> leaf_page_size t then None
      else Some (bt_next_page_id t,
        t\<lparr>bt_next_page_id := bt_next_page_id t + 1,
          bt_pages := (bt_pages t)(bt_next_page_id t \<mapsto>
             Leaf \<lparr>l_max_size = leaf_max_size t, l_next_page_id = INVALID_PAGE_ID, l_array = []\<rparr>)\<rparr>))"

definition NewInternalPage :: "('k, 'v) BPlusTree \<Rightarrow> (page_id_t \<times> ('k, 'v) BPlusTree) option" where
  "NewInternalPage t =
     (if \<not> new_page_ok t (bt_next_page_id t) then None
      else if \<not> internal_max_size t + 1 \<le> internal_page_size t then None
      else Some (bt_next_page_id t,
        t\<lparr>bt_next_page_id := bt_next_page_id t + 1,
          bt_pages := (bt_pages t)(bt_next_page_id t \<mapsto>
             Internal \<lparr>i_max_size = internal_max_size t + 1, i_array = []\<rparr>)\<rparr>))"

text \<open>\<^verbatim>\<open>SplitLeaf\<close> of the leaf at \<open>pid\<close>: the tree, \<^verbatim>\<open>split_key\<close> and \<^verbatim>\<open>split_page_id\<close>.\<close>

definition SplitLeaf :: "('k, 'v) BPlusTree \<Rightarrow> page_id_t \<Rightarrow> (('k, 'v) BPlusTree \<times> 'k \<times> page_id_t) option" where
  "SplitLeaf t pid =
     (case bt_pages t pid of
        Some (Leaf l) \<Rightarrow>
          (case NewLeafPage t of None \<Rightarrow> None | Some (split_page_id, t1) \<Rightarrow>
           case bt_pages t1 split_page_id of
             Some (Leaf split_page) \<Rightarrow>
               (case array_Split (l_array l) of (left, right) \<Rightarrow>
                do { split_key \<leftarrow> first_key right;
                     Some (t1\<lparr>bt_pages := (bt_pages t1)
                              (split_page_id \<mapsto> Leaf (split_page\<lparr>l_array := right,
                                                                 l_next_page_id := l_next_page_id l\<rparr>),
                               pid \<mapsto> Leaf (l\<lparr>l_array := left, l_next_page_id := split_page_id\<rparr>))\<rparr>,
                           split_key, split_page_id) })
           | _ \<Rightarrow> None)
      | _ \<Rightarrow> None)"

definition SplitInternal :: "('k, 'v) BPlusTree \<Rightarrow> page_id_t \<Rightarrow> (('k, 'v) BPlusTree \<times> 'k \<times> page_id_t) option" where
  "SplitInternal t pid =
     (case bt_pages t pid of
        Some (Internal n) \<Rightarrow>
          (case NewInternalPage t of None \<Rightarrow> None | Some (split_page_id, t1) \<Rightarrow>
           case bt_pages t1 split_page_id of
             Some (Internal split_page) \<Rightarrow>
               (case array_Split (i_array n) of (left, right) \<Rightarrow>
                do { split_key \<leftarrow> first_key right;
                     Some (t1\<lparr>bt_pages := (bt_pages t1)
                              (split_page_id \<mapsto> Internal (split_page\<lparr>i_array := right\<rparr>),
                               pid \<mapsto> Internal (n\<lparr>i_array := left\<rparr>))\<rparr>,
                           split_key, split_page_id) })
           | _ \<Rightarrow> None)
      | _ \<Rightarrow> None)"

text \<open>
  The \<^verbatim>\<open>while\<close> loop of \<^verbatim>\<open>Split\<close> over the rest of the write set, with \<^verbatim>\<open>last_key\<close>,
  \<^verbatim>\<open>last_page_id\<close>, \<^verbatim>\<open>split_key\<close> and \<^verbatim>\<open>split_page_id\<close>. The result is the tree and, when
  the loop ran out of pages, the four values for the new root (\<open>None\<close> when it returned).
\<close>

fun Split_loop :: "('k::linorder, 'v) BPlusTree \<Rightarrow> page_id_t list \<Rightarrow> 'k \<Rightarrow> page_id_t \<Rightarrow> 'k \<Rightarrow> page_id_t
    \<Rightarrow> (('k, 'v) BPlusTree \<times> ('k \<times> page_id_t \<times> 'k \<times> page_id_t) option) option" where
  "Split_loop t [] last_key last_page_id split_key split_page_id =
     Some (t, Some (last_key, last_page_id, split_key, split_page_id))"
| "Split_loop t (p # ws) last_key last_page_id split_key split_page_id =
     (case bt_pages t p of
        Some (Internal n) \<Rightarrow>
          (let arr = internal_Insert split_key split_page_id (i_array n);
               t1 = t\<lparr>bt_pages := (bt_pages t)(p \<mapsto> Internal (n\<lparr>i_array := arr\<rparr>))\<rparr>
           in do { last_key' \<leftarrow> first_key arr;
                   if length arr < i_max_size n then Some (t1, None)
                   else do { (t2, split_key', split_page_id') \<leftarrow> SplitInternal t1 p;
                             Split_loop t2 ws last_key' p split_key' split_page_id' } })
      | _ \<Rightarrow> None)"

definition Split :: "('k::linorder, 'v) BPlusTree \<Rightarrow> Context \<Rightarrow> ('k, 'v) BPlusTree option" where
  "Split t ctx =
     (case write_set ctx of
        [] \<Rightarrow> None
      | leaf_id # ws \<Rightarrow>
          (case bt_pages t leaf_id of
             Some (Leaf l) \<Rightarrow>
               if length (l_array l) < l_max_size l then Some t
               else do {
                 (t1, split_key, split_page_id) \<leftarrow> SplitLeaf t leaf_id;
                 last_key \<leftarrow> first_key (fst (array_Split (l_array l)));
                 (t2, r) \<leftarrow> Split_loop t1 ws last_key leaf_id split_key split_page_id;
                 case r of
                   None \<Rightarrow> Some t2
                 | Some (lk, lp, sk, sp) \<Rightarrow>
                     (case NewInternalPage t2 of None \<Rightarrow> None | Some (root_id, t3) \<Rightarrow>
                      if \<not> header_held ctx then None
                      else case bt_pages t3 root_id of
                        Some (Internal root_page) \<Rightarrow>
                          Some (t3\<lparr>root_page_id := root_id,
                                  bt_pages := (bt_pages t3)(root_id \<mapsto> Internal (root_page
                                     \<lparr>i_array := internal_Insert sk sp (internal_Insert lk lp (i_array root_page))\<rparr>))\<rparr>)
                      | _ \<Rightarrow> None) }
           | _ \<Rightarrow> None))"

text \<open>\<^verbatim>\<open>Insert\<close>: the tree and the result.\<close>

definition Insert :: "('k::linorder, 'v) BPlusTree \<Rightarrow> 'k \<Rightarrow> 'v \<Rightarrow> (('k, 'v) BPlusTree \<times> bool) option" where
  "Insert t key value =
     do {
        t0 \<leftarrow> (if root_page_id t = INVALID_PAGE_ID
               then (case NewLeafPage t of None \<Rightarrow> None
                     | Some (pid, t') \<Rightarrow> Some (t'\<lparr>root_page_id := pid\<rparr>))
               else Some t);
        (t1, ctx) \<leftarrow> FindLeafMut key False t0;
        case write_set ctx of
          [] \<Rightarrow> None
        | leaf_id # _ \<Rightarrow>
            (case bt_pages t1 leaf_id of
               Some (Leaf l) \<Rightarrow>
                 (case leaf_Insert key value (l_array l) of
                    None \<Rightarrow> Some (t1, False)
                  | Some arr \<Rightarrow>
                      do { t2 \<leftarrow> Split (t1\<lparr>bt_pages := (bt_pages t1)(leaf_id \<mapsto> Leaf (l\<lparr>l_array := arr\<rparr>))\<rparr>) ctx;
                           Some (t2, True) })
             | _ \<Rightarrow> None) }"

subsection \<open>Removal\<close>



definition records_of :: "'k \<Rightarrow> page_id_t \<Rightarrow> 'k option \<Rightarrow> page_id_t \<Rightarrow> ('k \<times> page_id_t) list" where
  "records_of l_key l_page_id r_key r_page_id =
     (l_key, l_page_id) # (case r_key of None \<Rightarrow> [] | Some rk \<Rightarrow> [(rk, r_page_id)])"






declare FindLeaf_loop.simps [code]
declare FindLeafMut_loop.simps [code]

section \<open>Observations and examples of trees\<close>

text \<open>The split offset as the specification has it, \<open>\<lceil>(s + 1) / 2\<rceil>\<close>, in natural numbers.\<close>

definition spec_split_offset :: "nat \<Rightarrow> nat" where
  "spec_split_offset s = (s + 2) div 2"

definition root_entries :: "('k, 'v) BPlusTree \<Rightarrow> ('k \<times> page_id_t) list" where
  "root_entries t =
     (case bt_pages t (root_page_id t) of Some (Internal n) \<Rightarrow> i_array n | _ \<Rightarrow> [])"

text \<open>The separator keys of the root are the keys of its slots but slot 0.\<close>

definition root_separators :: "('k, 'v) BPlusTree \<Rightarrow> 'k list" where
  "root_separators t = map fst (tl (root_entries t))"

definition root_children :: "('k, 'v) BPlusTree \<Rightarrow> page_id_t list" where
  "root_children t = map snd (root_entries t)"

definition leaf_keys :: "('k, 'v) BPlusTree \<Rightarrow> page_id_t \<Rightarrow> 'k list option" where
  "leaf_keys t pid =
     (case bt_pages t pid of Some (Leaf l) \<Rightarrow> Some (map fst (l_array l)) | _ \<Rightarrow> None)"

text \<open>
  Keys inserted in order into a tree, each with the key itself as its record id; the
  results of the calls are collected. \<open>None\<close> when a call does not return. The trees of
  the examples have the smallest capacities that \<^verbatim>\<open>Init\<close> accepts for their maximum
  sizes, and a pool that has a frame for every new page.
\<close>

fun insert_keys :: "int list \<Rightarrow> (int, int) BPlusTree \<Rightarrow> ((int, int) BPlusTree \<times> bool list) option" where
  "insert_keys [] t = Some (t, [])"
| "insert_keys (x # xs) t =
     (case Insert t x x of
        None \<Rightarrow> None
      | Some (t', b) \<Rightarrow> (case insert_keys xs t' of None \<Rightarrow> None | Some (t'', bs) \<Rightarrow> Some (t'', b # bs)))"

definition tree_after :: "int list \<Rightarrow> nat \<Rightarrow> nat \<Rightarrow> (int, int) BPlusTree" where
  "tree_after keys leaf_max internal_max =
     (case insert_keys keys
             (BPlusTree_init leaf_max internal_max leaf_max (internal_max + 1) (\<lambda>p. True) 1) of
        None \<Rightarrow> BPlusTree_init leaf_max internal_max leaf_max (internal_max + 1) (\<lambda>p. True) 1
      | Some (t, _) \<Rightarrow> t)"

text \<open>A tree whose root is a full leaf of four slots (\<open>leaf_max = 4\<close>), at page 1.\<close>

definition leaf4_tree :: "(int, int) BPlusTree" where
  "leaf4_tree =
     \<lparr>root_page_id = 1,
      bt_pages = [1 \<mapsto> Leaf \<lparr>l_max_size = 4, l_next_page_id = INVALID_PAGE_ID,
                               l_array = [(1, 1), (2, 2), (3, 3), (4, 4)]\<rparr>],
      bt_next_page_id = 2, leaf_max_size = 4, internal_max_size = 3,
      leaf_page_size = 4, internal_page_size = 4, new_page_ok = (\<lambda>p. True)\<rparr>"

section \<open>Trees as values: the abstraction used in the proofs about the B+ tree\<close>

text \<open>
  The tree that a store holds below a page: a leaf with its page id and slots, or an
  internal page with its page id and, per slot, the key and the tree below the child.
\<close>

datatype ('k, 'v) atree =
  ALeaf page_id_t "('k \<times> 'v) list"
| ANode page_id_t "('k \<times> ('k, 'v) atree) list"

fun apid :: "('k, 'v) atree \<Rightarrow> page_id_t" where
  "apid (ALeaf p xs) = p"
| "apid (ANode p es) = p"

fun pids :: "('k, 'v) atree \<Rightarrow> page_id_t list" where
  "pids (ALeaf p xs) = [p]"
| "pids (ANode p es) = p # concat (map (\<lambda>e. pids (snd e)) es)"

fun leaves_of :: "('k, 'v) atree \<Rightarrow> ('k \<times> 'v) list" where
  "leaves_of (ALeaf p xs) = xs"
| "leaves_of (ANode p es) = concat (map (\<lambda>e. leaves_of (snd e)) es)"

text \<open>All keys of a tree: those of the leaves and those of the slots of internal pages.\<close>

fun allkeys :: "('k, 'v) atree \<Rightarrow> 'k set" where
  "allkeys (ALeaf p xs) = fst ` set xs"
| "allkeys (ANode p es) = fst ` set es \<union> (\<Union>e\<in>set es. allkeys (snd e))"


text \<open>
  The order of keys: a leaf is strictly ascending; an internal page is not empty, the
  key of each slot (slot 0 included) is a lower bound of all keys below the slot, and
  for two slots, the later one's key is above the earlier one's key and above all keys
  below the earlier slot.
\<close>

fun wf_t :: "('k::linorder, 'v) atree \<Rightarrow> bool" where
  "wf_t (ALeaf p xs) = sorted_wrt (<) (map fst xs)"
| "wf_t (ANode p es) =
     (es \<noteq> [] \<and>
      (\<forall>e\<in>set es. wf_t (snd e) \<and> (\<forall>x\<in>allkeys (snd e). fst e \<le> x)) \<and>
      sorted_wrt (\<lambda>a b. fst a < fst b \<and> (\<forall>x\<in>allkeys (snd a). x < fst b)) es)"

definition ent_rel :: "'k::linorder \<times> ('k, 'v) atree \<Rightarrow> 'k \<times> ('k, 'v) atree \<Rightarrow> bool" where
  "ent_rel a b \<longleftrightarrow> fst a < fst b \<and> (\<forall>x\<in>allkeys (snd a). x < fst b)"

definition entries_ok :: "('k::linorder \<times> ('k, 'v) atree) list \<Rightarrow> bool" where
  "entries_ok es \<longleftrightarrow>
     (\<forall>e\<in>set es. wf_t (snd e) \<and> (\<forall>x\<in>allkeys (snd e). fst e \<le> x)) \<and> sorted_wrt ent_rel es"

text \<open>The key of slot 0 of the page at the root of a tree.\<close>

definition root_first :: "('k, 'v) atree \<Rightarrow> 'k" where
  "root_first t = (case t of ALeaf p xs \<Rightarrow> fst (hd xs) | ANode p es \<Rightarrow> fst (hd es))"

text \<open>The store holds the tree: each page of the tree is in the store, with the maximum
  sizes of the tree and with the page ids of the children in its slots.\<close>

fun rep :: "(page_id_t \<rightharpoonup> ('k, 'v) TreePage) \<Rightarrow> nat \<Rightarrow> nat \<Rightarrow> ('k, 'v) atree \<Rightarrow> bool" where
  "rep pg lm im (ALeaf p xs) = (\<exists>l. pg p = Some (Leaf l) \<and> l_max_size l = lm \<and> l_array l = xs)"
| "rep pg lm im (ANode p es) =
     (pg p = Some (Internal \<lparr>i_max_size = im + 1, i_array = map (\<lambda>e. (fst e, apid (snd e))) es\<rparr>) \<and>
      (\<forall>e\<in>set es. rep pg lm im (snd e)))"



text \<open>
  Insertion on trees as values, as the descent and the splits of \<^verbatim>\<open>Insert\<close> do it: the
  tree stays below its page (\<open>Stay\<close>, with whether the pair was inserted), or the page
  was split (\<open>Over\<close>: left tree, split key, right tree). The last component is the next
  new page id.
\<close>

datatype ('k, 'v) ins_result =
  Stay bool "('k, 'v) atree" page_id_t
| Over "('k, 'v) atree" 'k "('k, 'v) atree" page_id_t

fun ains :: "nat \<Rightarrow> nat \<Rightarrow> ('k::linorder, 'v) atree \<Rightarrow> 'k \<Rightarrow> 'v \<Rightarrow> page_id_t \<Rightarrow> ('k, 'v) ins_result" where
  "ains lm im (ALeaf p xs) key v nxt =
     (case leaf_Insert key v xs of
        None \<Rightarrow> Stay False (ALeaf p xs) nxt
      | Some xs' \<Rightarrow>
          if length xs' < lm then Stay True (ALeaf p xs') nxt
          else Over (ALeaf p (fst (array_Split xs'))) (fst (hd (snd (array_Split xs'))))
                 (ALeaf nxt (snd (array_Split xs'))) (nxt + 1))"
| "ains lm im (ANode p es) key v nxt =
     (case child_index key es of
        None \<Rightarrow> Stay False (ANode p es) nxt
      | Some i \<Rightarrow>
          (let es1 = lower_first key es in
           case map (\<lambda>e. ains lm im (snd e) key v nxt) es ! i of
             Stay b c nxt' \<Rightarrow> Stay b (ANode p (es1[i := (fst (es1 ! i), c)])) nxt'
           | Over cl sk cr nxt' \<Rightarrow>
               (let es2 = array_Insert sk cr (es1[i := (fst (es1 ! i), cl)]) in
                if length es2 < im + 1 then Stay True (ANode p es2) nxt'
                else Over (ANode p (fst (array_Split es2))) (fst (hd (snd (array_Split es2))))
                       (ANode nxt' (snd (array_Split es2))) (nxt' + 1))))"

text \<open>What an insertion on trees as values has to deliver, for the key and the value
  inserted into the tree \<open>t\<close>.\<close>

fun ins_ok :: "'k::linorder \<Rightarrow> 'v \<Rightarrow> ('k, 'v) atree \<Rightarrow> ('k, 'v) ins_result \<Rightarrow> bool" where
  "ins_ok key v t (Stay b t' n) =
     (wf_t t' \<and> apid t' = apid t \<and> allkeys t' \<subseteq> insert key (allkeys t) \<and>
      (b \<longleftrightarrow> key \<notin> fst ` set (leaves_of t)) \<and>
      leaves_of t' = (if b then array_Insert key v (leaves_of t) else leaves_of t))"
| "ins_ok key v t (Over lt sk rt n) =
     (wf_t lt \<and> wf_t rt \<and> apid lt = apid t \<and> root_first lt \<in> allkeys lt \<and>
      (\<forall>x\<in>allkeys lt. x < sk) \<and> (\<forall>x\<in>allkeys rt. sk \<le> x) \<and>
      sk \<in> insert key (allkeys t) \<and>
      allkeys lt \<union> allkeys rt \<subseteq> insert key (allkeys t) \<and>
      key \<notin> fst ` set (leaves_of t) \<and>
      leaves_of lt @ leaves_of rt = array_Insert key v (leaves_of t))"

text \<open>The page ids after an insertion that started with \<open>nxt\<close> as the next new page id.\<close>

fun ins_pids :: "page_id_t \<Rightarrow> ('k, 'v) atree \<Rightarrow> ('k, 'v) ins_result \<Rightarrow> bool" where
  "ins_pids nxt t (Stay b t' n) =
     (nxt \<le> n \<and> distinct (pids t') \<and> set (pids t') \<subseteq> set (pids t) \<union> {nxt..<n})"
| "ins_pids nxt t (Over lt sk rt n) =
     (nxt < n \<and> distinct (pids lt @ pids rt) \<and> apid rt \<in> {nxt..<n} \<and>
      set (pids lt) \<union> set (pids rt) \<subseteq> set (pids t) \<union> {nxt..<n})"

text \<open>
  \<^verbatim>\<open>Insert\<close> from the descent on: \<^verbatim>\<open>FindLeafMut\<close> from page \<open>pid\<close> with the context so far,
  the insertion into the leaf, and \<^verbatim>\<open>Split\<close>.
\<close>

definition insert_at :: "'k::linorder \<Rightarrow> 'v \<Rightarrow> ('k, 'v) BPlusTree \<times> Context \<Rightarrow> page_id_t
    \<Rightarrow> (('k, 'v) BPlusTree \<times> bool) option" where
  "insert_at key value st pid =
     do {
       (t1, ctx) \<leftarrow> FindLeafMut_loop key False st pid;
       case write_set ctx of
         [] \<Rightarrow> None
       | leaf_id # _ \<Rightarrow>
           (case bt_pages t1 leaf_id of
              Some (Leaf l) \<Rightarrow>
                (case leaf_Insert key value (l_array l) of
                   None \<Rightarrow> Some (t1, False)
                 | Some arr \<Rightarrow>
                     do { t2 \<leftarrow> Split (t1\<lparr>bt_pages := (bt_pages t1)(leaf_id \<mapsto> Leaf (l\<lparr>l_array := arr\<rparr>))\<rparr>) ctx;
                          Some (t2, True) })
            | _ \<Rightarrow> None) }"

text \<open>\<^verbatim>\<open>Split\<close> from the \<^verbatim>\<open>while\<close> loop on: the loop over the rest \<open>ws\<close> of the write set, and
  the new root when the loop ran out of pages; \<open>hh\<close> is whether the header page is held.\<close>

definition finish_split :: "('k::linorder, 'v) BPlusTree \<Rightarrow> page_id_t list \<Rightarrow> bool \<Rightarrow> 'k \<Rightarrow> page_id_t
    \<Rightarrow> 'k \<Rightarrow> page_id_t \<Rightarrow> ('k, 'v) BPlusTree option" where
  "finish_split t ws hh last_key last_page_id split_key split_page_id =
     do {
       (t2, r) \<leftarrow> Split_loop t ws last_key last_page_id split_key split_page_id;
       case r of
         None \<Rightarrow> Some t2
       | Some (lk, lp, sk, sp) \<Rightarrow>
           (case NewInternalPage t2 of None \<Rightarrow> None | Some (root_id, t3) \<Rightarrow>
            if \<not> hh then None
            else case bt_pages t3 root_id of
              Some (Internal root_page) \<Rightarrow>
                Some (t3\<lparr>root_page_id := root_id,
                        bt_pages := (bt_pages t3)(root_id \<mapsto> Internal (root_page
                           \<lparr>i_array := internal_Insert sk sp (internal_Insert lk lp (i_array root_page))\<rparr>))\<rparr>)
            | _ \<Rightarrow> None) }"

text \<open>The tree after an insertion at the root: a root that was split gets a new root
  above its two halves.\<close>

definition ains_root :: "nat \<Rightarrow> nat \<Rightarrow> ('k::linorder, 'v) atree \<Rightarrow> 'k \<Rightarrow> 'v \<Rightarrow> page_id_t \<Rightarrow> ('k, 'v) atree" where
  "ains_root lm im t key v nxt =
     (case ains lm im t key v nxt of
        Stay b t' n \<Rightarrow> t'
      | Over lt sk rt n \<Rightarrow> ANode n [(root_first lt, lt), (sk, rt)])"

text \<open>
  The tree can get its next pages: the buffer pool hands out a frame for every page
  id from the next one on, and the sizes of the tree pass the checks of \<^verbatim>\<open>Init\<close>.
\<close>

definition caps_ok :: "('k, 'v) BPlusTree \<Rightarrow> bool" where
  "caps_ok T \<longleftrightarrow>
     leaf_max_size T \<le> leaf_page_size T \<and> internal_max_size T + 1 \<le> internal_page_size T \<and>
     (\<forall>p. bt_next_page_id T \<le> p \<longrightarrow> new_page_ok T p)"

text \<open>
  What a step on the store \<open>T\<close> that works below the tree \<open>t\<close> leaves as it is: the
  sizes, the capacities and the buffer pool's grants, the root page id, and the pages
  that were allocated and are not pages of \<open>t\<close>.
\<close>

definition frame_ok :: "('k, 'v) BPlusTree \<Rightarrow> ('k, 'v) BPlusTree \<Rightarrow> ('k, 'v) atree \<Rightarrow> bool" where
  "frame_ok T T' t \<longleftrightarrow>
     leaf_max_size T' = leaf_max_size T \<and> internal_max_size T' = internal_max_size T \<and>
     leaf_page_size T' = leaf_page_size T \<and> internal_page_size T' = internal_page_size T \<and>
     new_page_ok T' = new_page_ok T \<and>
     root_page_id T' = root_page_id T \<and>
     (\<forall>q. q < bt_next_page_id T \<and> q \<notin> set (pids t) \<longrightarrow> bt_pages T' q = bt_pages T q)"

text \<open>
  The code of \<^verbatim>\<open>Insert\<close> from page \<open>apid t\<close> on does what the insertion on trees as values
  says: it returns with the new tree in the store, or it is at the point where the
  loop of \<^verbatim>\<open>Split\<close> continues above the page, with the two halves in the store.
\<close>

fun ins_refines :: "'k::linorder \<Rightarrow> 'v \<Rightarrow> ('k, 'v) BPlusTree \<Rightarrow> Context \<Rightarrow> ('k, 'v) atree
    \<Rightarrow> ('k, 'v) ins_result \<Rightarrow> bool" where
  "ins_refines key v T ctx t (Stay b t' n) =
     (\<exists>T'. insert_at key v (T, ctx) (apid t) = Some (T', b) \<and> frame_ok T T' t \<and>
           bt_next_page_id T' = n \<and>
           rep (bt_pages T') (leaf_max_size T) (internal_max_size T) t')"
| "ins_refines key v T ctx t (Over lt sk rt n) =
     (\<exists>T'. insert_at key v (T, ctx) (apid t) =
             do { t2 \<leftarrow> finish_split T' (write_set ctx) (header_held ctx)
                          (root_first lt) (apid lt) sk (apid rt);
                  Some (t2, True) } \<and>
           frame_ok T T' t \<and> bt_next_page_id T' = n \<and>
           rep (bt_pages T') (leaf_max_size T) (internal_max_size T) lt \<and>
           rep (bt_pages T') (leaf_max_size T) (internal_max_size T) rt)"

text \<open>
  The store of a tree holds the tree \<open>t\<close> below its root page: the keys are in order, no
  page occurs twice, and the page ids are ids that were allocated.
\<close>

definition bt_inv :: "('k::linorder, 'v) BPlusTree \<Rightarrow> ('k, 'v) atree \<Rightarrow> bool" where
  "bt_inv T t \<longleftrightarrow>
     root_page_id T = apid t \<and> rep (bt_pages T) (leaf_max_size T) (internal_max_size T) t \<and>
     wf_t t \<and> distinct (pids t) \<and> (\<forall>q\<in>set (pids t). 0 \<le> q \<and> q < bt_next_page_id T)"

text \<open>The tree holds the pairs of the map \<open>m\<close>, and it can get its next pages.\<close>

definition bt_abs :: "('k::linorder, 'v) BPlusTree \<Rightarrow> ('k \<rightharpoonup> 'v) \<Rightarrow> bool" where
  "bt_abs T m \<longleftrightarrow>
     0 \<le> bt_next_page_id T \<and> caps_ok T \<and>
     (if root_page_id T = INVALID_PAGE_ID then m = Map.empty
      else \<exists>t. bt_inv T t \<and> m = map_of (leaves_of t))"

text \<open>A sequence of calls of \<^verbatim>\<open>Insert\<close>: the tree and the results of the calls.\<close>

fun insert_all :: "('k::linorder \<times> 'v) list \<Rightarrow> ('k, 'v) BPlusTree \<Rightarrow> (('k, 'v) BPlusTree \<times> bool list) option" where
  "insert_all [] t = Some (t, [])"
| "insert_all (kv # kvs) t =
     do { (t1, b) \<leftarrow> Insert t (fst kv) (snd kv);
          (t2, bs) \<leftarrow> insert_all kvs t1;
          Some (t2, b # bs) }"

section \<open>Trees as values: sizes, and removal\<close>





















section \<open>The code of Remove, step by step\<close>






section \<open>Sequences of operations, and the sizes of the pages of a tree\<close>






section \<open>Properties of the buffer pool manager\<close>

lemma bpm_one_page_reached:
  "NewPage (BufferPoolManager_init 2 2 (\<lambda>_. 0 :: nat)) = Inr (bpm_one_page, 0, Some 0)"
  by (simp add: NewPage_def BufferPoolManager_init_def LRUKReplacer_init_def acquire_frame_def
      touch_frame_def RecordAccess_def SetEvictable_def bind_err_def Let_def bpm_one_page_def
      default_node_def upt_rec numeral_2_eq_2 Page_init_def)

lemma bpm_wf_init: "bpm_wf (BufferPoolManager_init n kk dsk)"
  by (simp add: bpm_wf_def BufferPoolManager_init_def LRUKReplacer_init_def)

lemma bpm_wf_one_page: "bpm_wf bpm_one_page"
  by (simp add: bpm_wf_def bpm_one_page_def INVALID_PAGE_ID_def)

text \<open>
  C10. Given the sentinel \<^verbatim>\<open>INVALID_PAGE_ID\<close>, \<^verbatim>\<open>FetchPage\<close> returns the null frame and
  \<^verbatim>\<open>UnpinPage\<close>, \<^verbatim>\<open>FlushPage\<close> (and \<^verbatim>\<open>DeletePage\<close>) return false, each leaving the manager
  as it was, in every state of the manager and for every dirty flag.
\<close>

theorem invalid_page_id_rejected:
  "FetchPage bpm INVALID_PAGE_ID = Inr (bpm, None) \<and>
   UnpinPage bpm INVALID_PAGE_ID dirty = Inr (bpm, False) \<and>
   FlushPage bpm INVALID_PAGE_ID = Inr (bpm, False) \<and>
   DeletePage bpm INVALID_PAGE_ID = Inr (bpm, False)"
  by (simp add: FetchPage_def UnpinPage_def FlushPage_def DeletePage_def)

lemma map_of_store_put: "map_of (store_put f n ns) g = (if g = f then Some n else map_of ns g)"
  by (induction ns) auto

lemma map_of_store_erase: "map_of (store_erase f ns) g = (if g = f then None else map_of ns g)"
  by (induction ns) (auto simp: store_erase_def)

lemma UnpinPage_returns:
  assumes "bpm_wf bpm"
  shows "\<exists>b ok. UnpinPage bpm pid dirty = Inr (b, ok)"
  using assms
  by (auto simp: UnpinPage_def bpm_wf_def SetEvictable_def bind_err_def Let_def split: option.splits)

text \<open>
  C6. In a well-formed state, \<^verbatim>\<open>UnpinPage\<close> returns false and changes nothing when the page
  is not resident or its pin count is 0. Otherwise it returns true, the frame's pin count
  is one less, its dirty bit is the old one or-ed with \<^verbatim>\<open>is_dirty\<close>, the replacer has the
  frame evictable exactly when the new pin count is 0 (by \<^verbatim>\<open>SetEvictable(frame, true)\<close>,
  and is untouched otherwise), and nothing else changes.
\<close>

theorem UnpinPage_spec:
  assumes "bpm_wf bpm"
  shows "(page_table bpm pid = None \<longrightarrow> UnpinPage bpm pid dirty = Inr (bpm, False)) \<and>
         (\<forall>f. page_table bpm pid = Some f \<and> pin_count (pages bpm ! f) = 0 \<longrightarrow>
              UnpinPage bpm pid dirty = Inr (bpm, False)) \<and>
         (\<forall>f. page_table bpm pid = Some f \<and> pin_count (pages bpm ! f) \<noteq> 0 \<longrightarrow>
              (\<exists>bpm'. UnpinPage bpm pid dirty = Inr (bpm', True) \<and>
                 pages bpm' = (pages bpm)[f := (pages bpm ! f)
                    \<lparr>pin_count := pin_count (pages bpm ! f) - 1,
                     is_dirty := (is_dirty (pages bpm ! f) \<or> dirty)\<rparr>] \<and>
                 (frame_evictable (replacer bpm') f \<longleftrightarrow> pin_count (pages bpm ! f) - 1 = 0) \<and>
                 (if pin_count (pages bpm ! f) - 1 = 0
                  then SetEvictable (replacer bpm) f True = Inr (replacer bpm')
                  else replacer bpm' = replacer bpm) \<and>
                 bpm'\<lparr>pages := pages bpm, replacer := replacer bpm\<rparr> = bpm))"
proof (intro conjI allI impI)
  show "UnpinPage bpm pid dirty = Inr (bpm, False)" if "page_table bpm pid = None"
    using that by (simp add: UnpinPage_def)
next
  fix f assume "page_table bpm pid = Some f \<and> pin_count (pages bpm ! f) = 0"
  with assms show "UnpinPage bpm pid dirty = Inr (bpm, False)"
    by (auto simp: UnpinPage_def bpm_wf_def)
next
  fix f assume h: "page_table bpm pid = Some f \<and> pin_count (pages bpm ! f) \<noteq> 0"
  from assms h have a: "f < length (pages bpm)" "f < replacer_size (replacer bpm)"
      "pid \<noteq> INVALID_PAGE_ID"
    by (auto simp: bpm_wf_def)
  from assms h have "\<exists>n. map_of (node_store (replacer bpm)) f = Some n \<and> \<not> is_evictable n"
    unfolding bpm_wf_def by blast
  then obtain n where n: "map_of (node_store (replacer bpm)) f = Some n" "\<not> is_evictable n"
    by blast
  show "\<exists>bpm'. UnpinPage bpm pid dirty = Inr (bpm', True) \<and>
                 pages bpm' = (pages bpm)[f := (pages bpm ! f)
                    \<lparr>pin_count := pin_count (pages bpm ! f) - 1,
                     is_dirty := (is_dirty (pages bpm ! f) \<or> dirty)\<rparr>] \<and>
                 (frame_evictable (replacer bpm') f \<longleftrightarrow> pin_count (pages bpm ! f) - 1 = 0) \<and>
                 (if pin_count (pages bpm ! f) - 1 = 0
                  then SetEvictable (replacer bpm) f True = Inr (replacer bpm')
                  else replacer bpm' = replacer bpm) \<and>
                 bpm'\<lparr>pages := pages bpm, replacer := replacer bpm\<rparr> = bpm"
    using h n a
    by (simp add: UnpinPage_def SetEvictable_def bind_err_def Let_def frame_evictable_def
        map_of_store_put)
qed

theorem UnpinPage_spec_witness:
  "\<exists>bpm'. UnpinPage bpm_one_page 0 True = Inr (bpm', True) \<and>
      pin_count (pages bpm' ! 0) = 0 \<and> is_dirty (pages bpm' ! 0) \<and>
      frame_evictable (replacer bpm') 0 \<and>
      UnpinPage bpm' 0 False = Inr (bpm', False) \<and>
      UnpinPage bpm' 7 False = Inr (bpm', False)"
proof -
  have pt: "page_table bpm_one_page 0 = Some 0 \<and> pin_count (pages bpm_one_page ! 0) \<noteq> 0"
    by (simp add: bpm_one_page_def)
  from UnpinPage_spec[OF bpm_wf_one_page, of 0 True] pt
  obtain bpm' where b: "UnpinPage bpm_one_page 0 True = Inr (bpm', True)"
      "pages bpm' = (pages bpm_one_page)[0 := (pages bpm_one_page ! 0)
                    \<lparr>pin_count := pin_count (pages bpm_one_page ! 0) - 1,
                     is_dirty := (is_dirty (pages bpm_one_page ! 0) \<or> True)\<rparr>]"
      "frame_evictable (replacer bpm') 0 \<longleftrightarrow> pin_count (pages bpm_one_page ! 0) - 1 = 0"
    by blast
  have e: "bpm' = bpm_one_page\<lparr>pages := [\<lparr>page_id = 0, pin_count = 0, is_dirty = True, data = 0,
                rlatch_held = 0, wlatch_held = False\<rparr>, Page_init],
         replacer := \<lparr>node_store = [(0, \<lparr>history = [1], is_evictable = True\<rparr>)],
                  lru_less_k = [(1, 0)], lru_k = [], current_timestamp = 1, curr_size = 1,
                  replacer_size = 2, replacer_k = 2\<rparr>\<rparr>"
    using b(1) by (simp add: UnpinPage_def bpm_one_page_def SetEvictable_def bind_err_def
        INVALID_PAGE_ID_def)
  have wf': "bpm_wf bpm'"
    unfolding e by (simp add: bpm_wf_def bpm_one_page_def INVALID_PAGE_ID_def)
  have "UnpinPage bpm' 0 False = Inr (bpm', False)"
    using UnpinPage_spec[OF wf', of 0 False] by (simp add: e bpm_one_page_def)
  moreover have "UnpinPage bpm' 7 False = Inr (bpm', False)"
    using UnpinPage_spec[OF wf', of 7 False] by (simp add: e bpm_one_page_def)
  ultimately show ?thesis using b by (auto simp: bpm_one_page_def)
qed

lemma bpm_read_latched_reached:
  "FetchPageRead bpm_one_page 0 = Inr (bpm_read_latched, new_guard (Some 0))"
  by (simp add: FetchPageRead_def FetchPage_def bpm_one_page_def bpm_read_latched_def
      INVALID_PAGE_ID_def touch_frame_def RecordAccess_def SetEvictable_def bind_err_def
      Let_def RLatch_def new_guard_def set_erase_def)

lemma bpm_wf_read_latched: "bpm_wf bpm_read_latched"
  by (simp add: bpm_wf_def bpm_read_latched_def bpm_one_page_def INVALID_PAGE_ID_def)

lemma bpm_wf_resident:
  assumes "bpm_wf bpm" "page_table bpm pid = Some f"
  shows "f < length (pages bpm)" "f < replacer_size (replacer bpm)" "pid \<noteq> INVALID_PAGE_ID"
    "0 \<le> pin_count (pages bpm ! f)" "page_id (pages bpm ! f) = pid"
    "\<exists>n. map_of (node_store (replacer bpm)) f = Some n \<and> history n \<noteq> [] \<and>
         (is_evictable n \<longleftrightarrow> pin_count (pages bpm ! f) = 0)"
proof -
  from assms have l: "length (pages bpm) = pool_size bpm" "replacer_size (replacer bpm) = pool_size bpm"
    "page_table bpm INVALID_PAGE_ID = None"
    by (simp_all add: bpm_wf_def)
  from assms have r: "f < pool_size bpm \<and> page_id (pages bpm ! f) = pid \<and> 0 \<le> pin_count (pages bpm ! f) \<and>
        (\<exists>n. map_of (node_store (replacer bpm)) f = Some n \<and> history n \<noteq> [] \<and>
             (is_evictable n \<longleftrightarrow> pin_count (pages bpm ! f) = 0))"
    unfolding bpm_wf_def by blast
  show "f < length (pages bpm)" "f < replacer_size (replacer bpm)" using l r by simp_all
  show "pid \<noteq> INVALID_PAGE_ID" using l(3) assms(2) by auto
  show "0 \<le> pin_count (pages bpm ! f)" "page_id (pages bpm ! f) = pid" using r by simp_all
  show "\<exists>n. map_of (node_store (replacer bpm)) f = Some n \<and> history n \<noteq> [] \<and>
         (is_evictable n \<longleftrightarrow> pin_count (pages bpm ! f) = 0)" using r by simp
qed

text \<open>
  C7. In a well-formed state, for every page id (an id other than the sentinel
  \<^verbatim>\<open>INVALID_PAGE_ID\<close>, which names no page and for which \<^verbatim>\<open>DeletePage\<close> returns false):
  for a page that is not resident \<^verbatim>\<open>DeletePage\<close> returns true and changes nothing; for a
  resident page with pin count above 0 it returns false and changes nothing; otherwise
  it returns true, having written the frame to the disk if it was dirty, removed the
  frame from the replacer and the page from the page table, reset the frame's page id,
  pin count, dirty bit and bytes, appended the frame to the free list, and handed the
  page id to \<^verbatim>\<open>DeallocatePage\<close>.
\<close>

theorem DeletePage_spec:
  assumes "bpm_wf bpm"
  shows "DeletePage bpm INVALID_PAGE_ID = Inr (bpm, False) \<and>
         (pid \<noteq> INVALID_PAGE_ID \<and> page_table bpm pid = None \<longrightarrow> DeletePage bpm pid = Inr (bpm, True)) \<and>
         (\<forall>f. page_table bpm pid = Some f \<and> pin_count (pages bpm ! f) > 0 \<longrightarrow>
              DeletePage bpm pid = Inr (bpm, False)) \<and>
         (\<forall>f. page_table bpm pid = Some f \<and> \<not> pin_count (pages bpm ! f) > 0 \<longrightarrow>
              (\<exists>bpm'. DeletePage bpm pid = Inr (bpm', True) \<and>
                 disk bpm' = (if is_dirty (pages bpm ! f)
                              then (disk bpm)(pid := data (pages bpm ! f)) else disk bpm) \<and>
                 Remove_frame (replacer bpm) f = Inr (replacer bpm') \<and>
                 map_of (node_store (replacer bpm')) f = None \<and>
                 page_table bpm' = (page_table bpm)(pid := None) \<and>
                 pages bpm' = (pages bpm)[f := (pages bpm ! f)
                    \<lparr>page_id := INVALID_PAGE_ID, pin_count := 0, is_dirty := False, data := 0\<rparr>] \<and>
                 free_list bpm' = free_list bpm @ [f] \<and>
                 deallocated bpm' = deallocated bpm @ [pid] \<and>
                 next_page_id bpm' = next_page_id bpm \<and> pool_size bpm' = pool_size bpm))"
proof (intro conjI allI impI)
  show "DeletePage bpm INVALID_PAGE_ID = Inr (bpm, False)"
    by (simp add: DeletePage_def)
next
  assume "pid \<noteq> INVALID_PAGE_ID \<and> page_table bpm pid = None"
  then show "DeletePage bpm pid = Inr (bpm, True)"
    by (simp add: DeletePage_def)
next
  fix f assume h: "page_table bpm pid = Some f \<and> pin_count (pages bpm ! f) > 0"
  with assms have "f < length (pages bpm)" "pid \<noteq> INVALID_PAGE_ID"
    using bpm_wf_resident[of bpm pid f] by auto
  with h show "DeletePage bpm pid = Inr (bpm, False)"
    by (simp add: DeletePage_def)
next
  fix f assume h: "page_table bpm pid = Some f \<and> \<not> pin_count (pages bpm ! f) > 0"
  from assms h have a: "f < length (pages bpm)" "pid \<noteq> INVALID_PAGE_ID" "pin_count (pages bpm ! f) = 0"
    using bpm_wf_resident[of bpm pid f] by auto
  from assms h have "\<exists>n. map_of (node_store (replacer bpm)) f = Some n \<and> history n \<noteq> [] \<and>
      (is_evictable n \<longleftrightarrow> pin_count (pages bpm ! f) = 0)"
    using bpm_wf_resident(6)[of bpm pid f] by blast
  then obtain n where n: "map_of (node_store (replacer bpm)) f = Some n" "history n \<noteq> []"
      "is_evictable n"
    using a(3) by blast
  from n(2) obtain t ts where t: "history n = t # ts" by (cases "history n") auto
  show "\<exists>bpm'. DeletePage bpm pid = Inr (bpm', True) \<and>
                 disk bpm' = (if is_dirty (pages bpm ! f)
                              then (disk bpm)(pid := data (pages bpm ! f)) else disk bpm) \<and>
                 Remove_frame (replacer bpm) f = Inr (replacer bpm') \<and>
                 map_of (node_store (replacer bpm')) f = None \<and>
                 page_table bpm' = (page_table bpm)(pid := None) \<and>
                 pages bpm' = (pages bpm)[f := (pages bpm ! f)
                    \<lparr>page_id := INVALID_PAGE_ID, pin_count := 0, is_dirty := False, data := 0\<rparr>] \<and>
                 free_list bpm' = free_list bpm @ [f] \<and>
                 deallocated bpm' = deallocated bpm @ [pid] \<and>
                 next_page_id bpm' = next_page_id bpm \<and> pool_size bpm' = pool_size bpm"
    using h a n t
    by (simp add: DeletePage_def Remove_frame_def bind_err_def map_of_store_erase)
qed

theorem DeletePage_spec_witness:
  "DeletePage bpm_one_page 0 = Inr (bpm_one_page, False) \<and>
   DeletePage bpm_one_page 5 = Inr (bpm_one_page, True) \<and>
   (\<exists>b1 b2. UnpinPage bpm_one_page 0 True = Inr (b1, True) \<and>
       DeletePage b1 0 = Inr (b2, True) \<and> page_table b2 0 = None \<and> free_list b2 = [1, 0] \<and>
       disk b2 0 = 0 \<and> deallocated b2 = [0])"
proof -
  have 1: "DeletePage bpm_one_page 0 = Inr (bpm_one_page, False)"
    using DeletePage_spec[OF bpm_wf_one_page, of 0] by (simp add: bpm_one_page_def)
  have 2: "DeletePage bpm_one_page 5 = Inr (bpm_one_page, True)"
    using DeletePage_spec[OF bpm_wf_one_page, of 5] by (simp add: bpm_one_page_def INVALID_PAGE_ID_def)
  define b1 where "b1 = bpm_one_page\<lparr>pages := [\<lparr>page_id = 0, pin_count = 0, is_dirty = True, data = 0,
                rlatch_held = 0, wlatch_held = False\<rparr>, Page_init],
         replacer := \<lparr>node_store = [(0, \<lparr>history = [1], is_evictable = True\<rparr>)],
                  lru_less_k = [(1, 0)], lru_k = [], current_timestamp = 1, curr_size = 1,
                  replacer_size = 2, replacer_k = 2\<rparr>\<rparr>"
  have u: "UnpinPage bpm_one_page 0 True = Inr (b1, True)"
    by (simp add: UnpinPage_def bpm_one_page_def SetEvictable_def bind_err_def
        INVALID_PAGE_ID_def b1_def)
  have wf1: "bpm_wf b1"
    by (simp add: b1_def bpm_wf_def bpm_one_page_def INVALID_PAGE_ID_def)
  have pt: "page_table b1 0 = Some 0 \<and> \<not> pin_count (pages b1 ! 0) > 0"
    by (simp add: b1_def bpm_one_page_def)
  from DeletePage_spec[OF wf1, of 0] pt
  obtain b2 where "DeletePage b1 0 = Inr (b2, True)" "page_table b2 0 = None"
      "free_list b2 = free_list b1 @ [0]" "deallocated b2 = deallocated b1 @ [0]"
      "disk b2 = (if is_dirty (pages b1 ! 0) then (disk b1)(0 := data (pages b1 ! 0)) else disk b1)"
    by fastforce
  then show ?thesis using 1 2 u by (auto simp: b1_def bpm_one_page_def)
qed

text \<open>
  C9, as stated, on a read guard of frame 0: the calls of \<^verbatim>\<open>ReadPageGuard::Drop\<close> are
  \<^verbatim>\<open>UnpinPage\<close> first and \<^verbatim>\<open>RUnlatch\<close> second, not the other way round.
\<close>

theorem guard_drop_order_counterexample:
  "drop_calls (ReadPageGuard_Drop (new_guard (Some 0)) bpm_read_latched) =
     [CallUnpinPage 0 False, CallRUnlatch 0] \<and>
   drop_calls (ReadPageGuard_Drop (new_guard (Some 0)) bpm_read_latched) \<noteq>
     [CallRUnlatch 0, CallUnpinPage 0 False]"
  by (simp add: drop_calls_def ReadPageGuard_Drop_def new_guard_def bpm_read_latched_def
      bpm_one_page_def UnpinPage_def INVALID_PAGE_ID_def bind_err_def)

text \<open>
  C9, amended. Dropping a read or write guard that holds a frame first calls
  \<^verbatim>\<open>UnpinPage(page_id, is_dirty_)\<close> on the manager and then releases the frame's latch
  (\<^verbatim>\<open>RUnlatch\<close>, \<^verbatim>\<open>WUnlatch\<close>); a basic guard only unpins. The guard is left without a
  frame, and dropping it again makes no call and changes nothing.
\<close>

theorem guard_drop_spec:
  assumes "bpm_wf bpm" "g_page g = Some f" "f < pool_size bpm"
  shows "\<exists>b1 ok.
     UnpinPage bpm (page_id (pages bpm ! f)) (g_is_dirty g) = Inr (b1, ok) \<and>
     ReadPageGuard_Drop g bpm =
       Inr ([CallUnpinPage (page_id (pages bpm ! f)) (g_is_dirty g), CallRUnlatch f],
            g\<lparr>g_bpm := False, g_page := None\<rparr>, RUnlatch b1 f) \<and>
     WritePageGuard_Drop g bpm =
       Inr ([CallUnpinPage (page_id (pages bpm ! f)) (g_is_dirty g), CallWUnlatch f],
            g\<lparr>g_bpm := False, g_page := None\<rparr>, WUnlatch b1 f) \<and>
     BasicPageGuard_Drop g bpm =
       Inr ([CallUnpinPage (page_id (pages bpm ! f)) (g_is_dirty g)],
            g\<lparr>g_bpm := False, g_page := None\<rparr>, b1) \<and>
     (\<forall>b :: 'a BufferPoolManager.
        ReadPageGuard_Drop (g\<lparr>g_bpm := False, g_page := None\<rparr>) b =
          Inr ([], g\<lparr>g_bpm := False, g_page := None\<rparr>, b) \<and>
        WritePageGuard_Drop (g\<lparr>g_bpm := False, g_page := None\<rparr>) b =
          Inr ([], g\<lparr>g_bpm := False, g_page := None\<rparr>, b) \<and>
        BasicPageGuard_Drop (g\<lparr>g_bpm := False, g_page := None\<rparr>) b =
          Inr ([], g\<lparr>g_bpm := False, g_page := None\<rparr>, b))"
proof -
  from UnpinPage_returns[OF assms(1)] obtain b1 ok
    where u: "UnpinPage bpm (page_id (pages bpm ! f)) (g_is_dirty g) = Inr (b1, ok)"
    by blast
  from assms have l: "f < length (pages bpm)" by (simp add: bpm_wf_def)
  show ?thesis
    using u l assms(2)
    by (simp add: ReadPageGuard_Drop_def WritePageGuard_Drop_def BasicPageGuard_Drop_def
        bind_err_def)
qed

theorem guard_drop_spec_witness:
  "\<exists>b1 ok.
     UnpinPage bpm_read_latched 0 False = Inr (b1, ok) \<and>
     ReadPageGuard_Drop (new_guard (Some 0)) bpm_read_latched =
       Inr ([CallUnpinPage 0 False, CallRUnlatch 0], new_guard None\<lparr>g_bpm := False\<rparr>, RUnlatch b1 0) \<and>
     pin_count (pages (RUnlatch b1 0) ! 0) = 1 \<and> rlatch_held (pages (RUnlatch b1 0) ! 0) = 0 \<and>
     ReadPageGuard_Drop (new_guard None\<lparr>g_bpm := False\<rparr>) (RUnlatch b1 0) =
       Inr ([], new_guard None\<lparr>g_bpm := False\<rparr>, RUnlatch b1 0)"
proof -
  have g: "g_page (new_guard (Some 0)) = Some 0" "(0::nat) < pool_size bpm_read_latched"
    by (simp_all add: new_guard_def bpm_read_latched_def bpm_one_page_def)
  from guard_drop_spec[OF bpm_wf_read_latched g]
  obtain b1 ok where
    u: "UnpinPage bpm_read_latched (page_id (pages bpm_read_latched ! 0)) (g_is_dirty (new_guard (Some 0))) = Inr (b1, ok)"
    and r: "ReadPageGuard_Drop (new_guard (Some 0)) bpm_read_latched =
       Inr ([CallUnpinPage (page_id (pages bpm_read_latched ! 0)) (g_is_dirty (new_guard (Some 0))), CallRUnlatch 0],
            (new_guard (Some 0))\<lparr>g_bpm := False, g_page := None\<rparr>, RUnlatch b1 0)"
    and i: "ReadPageGuard_Drop ((new_guard (Some 0))\<lparr>g_bpm := False, g_page := None\<rparr>) (RUnlatch b1 0) =
          Inr ([], (new_guard (Some 0))\<lparr>g_bpm := False, g_page := None\<rparr>, RUnlatch b1 0)"
    by blast
  have p: "page_id (pages bpm_read_latched ! 0) = 0" "g_is_dirty (new_guard (Some 0)) = False"
    "(new_guard (Some 0))\<lparr>g_bpm := False, g_page := None\<rparr> = new_guard None\<lparr>g_bpm := False\<rparr>"
    by (simp_all add: new_guard_def bpm_read_latched_def bpm_one_page_def)
  have "pin_count (pages (RUnlatch b1 0) ! 0) = 1 \<and> rlatch_held (pages (RUnlatch b1 0) ! 0) = 0"
    using u unfolding p
    by (auto simp: UnpinPage_def bpm_read_latched_def bpm_one_page_def INVALID_PAGE_ID_def
        bind_err_def RUnlatch_def)
  then show ?thesis using u r i unfolding p by blast
qed

lemma Evict_loop_known:
  assumes "\<forall>p\<in>set ps. map_of ns (snd p) \<noteq> None"
  shows "Evict_loop ps ns =
           (find (\<lambda>p. case map_of ns (snd p) of None \<Rightarrow> False | Some n \<Rightarrow> is_evictable n) ps, ns)"
  using assms by (induction ps) (auto split: option.splits)

lemma pair_less_fst: "pair_less a b \<Longrightarrow> fst a \<le> fst b"
  by (auto simp: pair_less_def)

lemma find_sorted_least:
  assumes "sorted_wrt pair_less ps" "find P ps = Some p"
  shows "p \<in> set ps \<and> P p \<and> (\<forall>q\<in>set ps. P q \<longrightarrow> fst p \<le> fst q)"
  using assms
proof (induction ps)
  case Nil
  then show ?case by simp
next
  case (Cons a ps)
  show ?case
  proof (cases "P a")
    case True
    with Cons.prems have "p = a" by simp
    with True Cons.prems(1) show ?thesis by (auto dest: pair_less_fst)
  next
    case False
    with Cons show ?thesis by auto
  qed
qed

lemma mem_set_keys:
  "(t, f) \<in> set (set_keys (filter Q ns)) \<longleftrightarrow> (\<exists>n. (f, n) \<in> set ns \<and> Q (f, n) \<and> oldest n = t)"
  by (force simp: set_keys_def)

lemma inv_less_mem:
  assumes "replacer_inv r"
  shows "(t, f) \<in> set (lru_less_k r) \<longleftrightarrow>
     (\<exists>n. map_of (node_store r) f = Some n \<and> length (history n) < replacer_k r \<and> oldest n = t)"
  using assms by (auto simp: replacer_inv_def mem_set_keys)

lemma inv_k_mem:
  assumes "replacer_inv r"
  shows "(t, f) \<in> set (lru_k r) \<longleftrightarrow>
     (\<exists>n. map_of (node_store r) f = Some n \<and> \<not> length (history n) < replacer_k r \<and> oldest n = t)"
  using assms by (auto simp: replacer_inv_def mem_set_keys)

lemma inv_loops:
  assumes "replacer_inv r"
  shows "Evict_loop (lru_less_k r) (node_store r) =
           (find (\<lambda>p. case map_of (node_store r) (snd p) of None \<Rightarrow> False | Some n \<Rightarrow> is_evictable n)
              (lru_less_k r), node_store r)"
    and "Evict_loop (lru_k r) (node_store r) =
           (find (\<lambda>p. case map_of (node_store r) (snd p) of None \<Rightarrow> False | Some n \<Rightarrow> is_evictable n)
              (lru_k r), node_store r)"
proof -
  have "\<forall>p\<in>set (lru_less_k r). map_of (node_store r) (snd p) \<noteq> None"
    using inv_less_mem[OF assms] by (metis option.distinct(1) prod.collapse)
  then show "Evict_loop (lru_less_k r) (node_store r) =
           (find (\<lambda>p. case map_of (node_store r) (snd p) of None \<Rightarrow> False | Some n \<Rightarrow> is_evictable n)
              (lru_less_k r), node_store r)"
    by (rule Evict_loop_known)
  have "\<forall>p\<in>set (lru_k r). map_of (node_store r) (snd p) \<noteq> None"
    using inv_k_mem[OF assms] by (metis option.distinct(1) prod.collapse)
  then show "Evict_loop (lru_k r) (node_store r) =
           (find (\<lambda>p. case map_of (node_store r) (snd p) of None \<Rightarrow> False | Some n \<Rightarrow> is_evictable n)
              (lru_k r), node_store r)"
    by (rule Evict_loop_known)
qed

text \<open>The policy in terms of the map.\<close>

lemma inf_nonempty_iff:
  assumes "distinct (map fst ns)"
  shows "filter (\<lambda>p. length (history (snd p)) < kk) (evictable_nodes ns) \<noteq> [] \<longleftrightarrow>
      (\<exists>g m. map_of ns g = Some m \<and> is_evictable m \<and> length (history m) < kk)"
proof
  assume "filter (\<lambda>p. length (history (snd p)) < kk) (evictable_nodes ns) \<noteq> []"
  then obtain p where "p \<in> set ns" "is_evictable (snd p)" "length (history (snd p)) < kk"
    by (auto simp: evictable_nodes_def filter_empty_conv)
  then have "map_of ns (fst p) = Some (snd p) \<and> is_evictable (snd p) \<and> length (history (snd p)) < kk"
    using assms by simp
  then show "\<exists>g m. map_of ns g = Some m \<and> is_evictable m \<and> length (history m) < kk"
    by blast
next
  assume "\<exists>g m. map_of ns g = Some m \<and> is_evictable m \<and> length (history m) < kk"
  then obtain g m where "map_of ns g = Some m" "is_evictable m" "length (history m) < kk"
    by blast
  then have "(g, m) \<in> set (filter (\<lambda>p. length (history (snd p)) < kk) (evictable_nodes ns))"
    by (auto simp: evictable_nodes_def dest: map_of_SomeD)
  then show "filter (\<lambda>p. length (history (snd p)) < kk) (evictable_nodes ns) \<noteq> []"
    by (metis empty_iff list.set(1))
qed

lemma list_all_evictable_iff:
  assumes "distinct (map fst ns)"
  shows "list_all (\<lambda>p. x \<le> oldest (snd p)) (filter Q (evictable_nodes ns)) \<longleftrightarrow>
     (\<forall>g m. map_of ns g = Some m \<and> is_evictable m \<and> Q (g, m) \<longrightarrow> x \<le> oldest m)"
proof
  assume a: "list_all (\<lambda>p. x \<le> oldest (snd p)) (filter Q (evictable_nodes ns))"
  show "\<forall>g m. map_of ns g = Some m \<and> is_evictable m \<and> Q (g, m) \<longrightarrow> x \<le> oldest m"
  proof (intro allI impI)
    fix g m assume "map_of ns g = Some m \<and> is_evictable m \<and> Q (g, m)"
    then have "(g, m) \<in> set (filter Q (evictable_nodes ns))"
      by (auto simp: evictable_nodes_def dest: map_of_SomeD)
    with a show "x \<le> oldest m" by (auto simp: list_all_iff)
  qed
next
  assume a: "\<forall>g m. map_of ns g = Some m \<and> is_evictable m \<and> Q (g, m) \<longrightarrow> x \<le> oldest m"
  show "list_all (\<lambda>p. x \<le> oldest (snd p)) (filter Q (evictable_nodes ns))"
    unfolding list_all_iff
  proof
    fix p assume "p \<in> set (filter Q (evictable_nodes ns))"
    then have "p \<in> set ns" "is_evictable (snd p)" "Q p"
      by (auto simp: evictable_nodes_def)
    then have "map_of ns (fst p) = Some (snd p) \<and> is_evictable (snd p) \<and> Q (fst p, snd p)"
      using assms by simp
    with a show "x \<le> oldest (snd p)" by blast
  qed
qed

lemma lruk_victim_iff:
  assumes "distinct (map fst ns)"
  shows "lruk_victim kk ns f \<longleftrightarrow>
     (\<exists>n. map_of ns f = Some n \<and> is_evictable n \<and>
        (if \<exists>g m. map_of ns g = Some m \<and> is_evictable m \<and> length (history m) < kk
         then length (history n) < kk \<and>
              (\<forall>g m. map_of ns g = Some m \<and> is_evictable m \<and> length (history m) < kk \<longrightarrow> oldest n \<le> oldest m)
         else (\<forall>g m. map_of ns g = Some m \<and> is_evictable m \<longrightarrow> oldest n \<le> oldest m)))"
proof -
  have 1: "\<And>x. list_all (\<lambda>p. x \<le> oldest (snd p)) (evictable_nodes ns) \<longleftrightarrow>
     (\<forall>g m. map_of ns g = Some m \<and> is_evictable m \<longrightarrow> x \<le> oldest m)"
    using list_all_evictable_iff[OF assms, of _ "\<lambda>_. True"] by simp
  have 2: "\<And>x. list_all (\<lambda>p. x \<le> oldest (snd p))
        (filter (\<lambda>p. length (history (snd p)) < kk) (evictable_nodes ns)) \<longleftrightarrow>
     (\<forall>g m. map_of ns g = Some m \<and> is_evictable m \<and> length (history m) < kk \<longrightarrow> x \<le> oldest m)"
    using list_all_evictable_iff[OF assms, of _ "\<lambda>p. length (history (snd p)) < kk"] by simp
  show ?thesis
    unfolding lruk_victim_def Let_def inf_nonempty_iff[OF assms] 1 2
    by (cases "map_of ns f") simp_all
qed

lemma evictable_nodes_empty_iff:
  assumes "distinct (map fst ns)"
  shows "evictable_nodes ns = [] \<longleftrightarrow> \<not> (\<exists>g m. map_of ns g = Some m \<and> is_evictable m)"
proof -
  have "evictable_nodes ns = [] \<longleftrightarrow> (\<forall>p\<in>set ns. \<not> is_evictable (snd p))"
    by (simp add: evictable_nodes_def filter_empty_conv)
  also have "\<dots> \<longleftrightarrow> (\<forall>g m. (g, m) \<in> set ns \<longrightarrow> \<not> is_evictable m)"
    by auto
  also have "\<dots> \<longleftrightarrow> \<not> (\<exists>g m. map_of ns g = Some m \<and> is_evictable m)"
    using assms by simp
  finally show ?thesis .
qed

lemma scan_ok_skip:
  assumes "scan_state_ok kk seen st" "\<not> is_evictable n"
  shows "scan_state_ok kk (seen @ [(f, n)]) st"
proof -
  obtain hi he mx out where st: "st = (hi, he, mx, out)" by (cases st) auto
  show ?thesis
  proof (cases he)
    case False
    with assms show ?thesis unfolding st scan_state_ok_def by simp
  next
    case True
    with assms obtain g where "out = Some g" unfolding st scan_state_ok_def
      by (cases out) auto
    with assms True show ?thesis unfolding st scan_state_ok_def
      by (cases hi) auto
  qed
qed

lemma scan_ok_first:
  assumes "scan_state_ok kk seen (hi, False, mx, out)" "is_evictable n"
  shows "scan_state_ok kk (seen @ [(f, n)]) (length (history n) < kk, True, oldest n, Some f)"
  using assms unfolding scan_state_ok_def by auto

lemma scan_ok_inf_first:
  assumes "scan_state_ok kk seen (False, True, mx, out)" "is_evictable n" "length (history n) < kk"
  shows "scan_state_ok kk (seen @ [(f, n)]) (True, True, oldest n, Some f)"
  using assms unfolding scan_state_ok_def by auto

lemma scan_ok_better:
  assumes ok: "scan_state_ok kk seen (hi, True, mx, out)" and ev: "is_evictable n"
    and c: "hi \<longrightarrow> length (history n) < kk" and lt: "oldest n < mx"
  shows "scan_state_ok kk (seen @ [(f, n)]) (hi \<or> length (history n) < kk, True, oldest n, Some f)"
proof -
  have b: "\<And>p. mx \<le> oldest (snd p) \<Longrightarrow> oldest n \<le> oldest (snd p)"
    using lt by (meson less_imp_le order_trans)
  have hi_iff: "hi \<longleftrightarrow> (\<exists>p\<in>set seen. is_evictable (snd p) \<and> length (history (snd p)) < kk)"
    using ok unfolding scan_state_ok_def by simp
  have bound: "if hi then (\<forall>p\<in>set seen. is_evictable (snd p) \<and> length (history (snd p)) < kk
                           \<longrightarrow> mx \<le> oldest (snd p))
               else (\<forall>p\<in>set seen. is_evictable (snd p) \<longrightarrow> mx \<le> oldest (snd p))"
    using ok unfolding scan_state_ok_def by (auto split: if_splits)
  show ?thesis
  proof (cases hi)
    case True
    with c have l: "length (history n) < kk" by simp
    from True bound have "\<forall>p\<in>set seen. is_evictable (snd p) \<and> length (history (snd p)) < kk
                           \<longrightarrow> oldest n \<le> oldest (snd p)"
      using b by auto
    with True l ev hi_iff show ?thesis
      unfolding scan_state_ok_def by (auto intro!: exI[of _ n])
  next
    case False
    with bound have bb: "\<forall>p\<in>set seen. is_evictable (snd p) \<longrightarrow> oldest n \<le> oldest (snd p)"
      using b by auto
    from False hi_iff have none: "\<forall>p\<in>set seen. \<not> (is_evictable (snd p) \<and> length (history (snd p)) < kk)"
      by simp
    show ?thesis
    proof (cases "length (history n) < kk")
      case True
      with False ev none show ?thesis
        unfolding scan_state_ok_def by (auto intro!: exI[of _ n])
    next
      case F2: False
      with False ev none bb show ?thesis
        unfolding scan_state_ok_def by (auto intro!: exI[of _ n])
    qed
  qed
qed

lemma scan_ok_worse:
  assumes "scan_state_ok kk seen (hi, True, mx, out)" "is_evictable n"
    "hi \<or> \<not> length (history n) < kk" "(\<not> hi \<or> length (history n) < kk) \<longrightarrow> \<not> oldest n < mx"
  shows "scan_state_ok kk (seen @ [(f, n)]) (hi, True, mx, out)"
proof (cases hi)
  case True
  with assms obtain g where "out = Some g" unfolding scan_state_ok_def
    by (cases out) auto
  with assms True show ?thesis unfolding scan_state_ok_def
    by (cases "length (history n) < kk") auto
next
  case False
  with assms obtain g where "out = Some g" unfolding scan_state_ok_def
    by (cases out) auto
  with assms False show ?thesis unfolding scan_state_ok_def by auto
qed

lemma Evict_scan_ok:
  assumes "list_all (\<lambda>p. history (snd p) \<noteq> [] \<and> oldest (snd p) < - 1) ns"
    and "scan_state_ok kk seen st"
  shows "\<exists>st'. Evict_scan kk ns st = Inr st' \<and> scan_state_ok kk (seen @ ns) st'"
  using assms
proof (induction ns arbitrary: seen st)
  case Nil
  then show ?case by simp
next
  case (Cons a ns)
  obtain f n where a: "a = (f, n)" by (cases a) auto
  obtain hi he mx out where st: "st = (hi, he, mx, out)" by (cases st) auto
  from Cons.prems(1) a obtain t ts where h: "history n = t # ts" and tl: "t < - 1"
    by (cases "history n") (auto simp: oldest_def)
  have rest: "list_all (\<lambda>p. history (snd p) \<noteq> [] \<and> oldest (snd p) < - 1) ns"
    using Cons.prems(1) by simp
  have on: "oldest n = t" by (simp add: oldest_def h)
  have ok: "scan_state_ok kk seen (hi, he, mx, out)" using Cons.prems(2) st by simp
  have "\<exists>st1. Evict_scan kk (a # ns) st = Evict_scan kk ns st1 \<and> scan_state_ok kk (seen @ [a]) st1"
  proof (cases "is_evictable n")
    case False
    then have "Evict_scan kk (a # ns) st = Evict_scan kk ns st" by (simp add: a st)
    moreover have "scan_state_ok kk (seen @ [a]) st"
      unfolding a using scan_ok_skip[OF Cons.prems(2) False] .
    ultimately show ?thesis by blast
  next
    case ev: True
    show ?thesis
    proof (cases he)
      case False
      then have mx: "mx = - 1" and hi: "\<not> hi" using ok unfolding scan_state_ok_def by auto
      from ok False have okF: "scan_state_ok kk seen (hi, False, mx, out)" by simp
      have "Evict_scan kk (a # ns) st = Evict_scan kk ns (length (history n) < kk, True, t, Some f)"
        using ev tl hi by (simp add: a st h Let_def mx)
      moreover have "scan_state_ok kk (seen @ [a]) (length (history n) < kk, True, t, Some f)"
        using scan_ok_first[OF okF ev] on a by simp
      ultimately show ?thesis by blast
    next
      case he: True
      from ok he have okT: "scan_state_ok kk seen (hi, True, mx, out)" by simp
      show ?thesis
      proof (cases "length (history n) < kk")
        case l: True
        show ?thesis
        proof (cases hi)
          case False
          from okT False have okFT: "scan_state_ok kk seen (False, True, mx, out)" by simp
          have "Evict_scan kk (a # ns) st = Evict_scan kk ns (True, True, t, Some f)"
            using ev tl l False by (simp add: a st h Let_def)
          moreover have "scan_state_ok kk (seen @ [a]) (True, True, t, Some f)"
            using scan_ok_inf_first[OF okFT ev l] on a by simp
          ultimately show ?thesis by blast
        next
          case hi: True
          show ?thesis
          proof (cases "t < mx")
            case True
            have "Evict_scan kk (a # ns) st = Evict_scan kk ns (True, True, t, Some f)"
              using ev l hi True by (simp add: a st h Let_def)
            moreover have "scan_state_ok kk (seen @ [a]) (True, True, t, Some f)"
              using scan_ok_better[OF okT ev, of f] l True hi on a by simp
            ultimately show ?thesis by blast
          next
            case False
            have "Evict_scan kk (a # ns) st = Evict_scan kk ns (True, True, mx, out)"
              using ev l hi False by (simp add: a st h Let_def)
            moreover have "scan_state_ok kk (seen @ [a]) (True, True, mx, out)"
              using scan_ok_worse[OF okT ev, of f] l False hi on a by simp
            ultimately show ?thesis by blast
          qed
        qed
      next
        case l: False
        show ?thesis
        proof (cases hi)
          case True
          have "Evict_scan kk (a # ns) st = Evict_scan kk ns (True, True, mx, out)"
            using ev l True by (simp add: a st h Let_def)
          moreover have "scan_state_ok kk (seen @ [a]) (True, True, mx, out)"
            using scan_ok_worse[OF okT ev, of f] l True on a by simp
          ultimately show ?thesis by blast
        next
          case hi: False
          show ?thesis
          proof (cases "t < mx")
            case True
            have "Evict_scan kk (a # ns) st = Evict_scan kk ns (False, True, t, Some f)"
              using ev l hi True by (simp add: a st h Let_def)
            moreover have "scan_state_ok kk (seen @ [a]) (False, True, t, Some f)"
              using scan_ok_better[OF okT ev, of f] l True hi on a by simp
            ultimately show ?thesis by blast
          next
            case False
            have "Evict_scan kk (a # ns) st = Evict_scan kk ns (False, True, mx, out)"
              using ev l hi False by (simp add: a st h Let_def)
            moreover have "scan_state_ok kk (seen @ [a]) (False, True, mx, out)"
              using scan_ok_worse[OF okT ev, of f] l False hi on a by simp
            ultimately show ?thesis by blast
          qed
        qed
      qed
    qed
  qed
  then obtain st1 where s1: "Evict_scan kk (a # ns) st = Evict_scan kk ns st1"
      "scan_state_ok kk (seen @ [a]) st1" by blast
  from Cons.IH[OF rest s1(2)] show ?case
    unfolding s1(1) by simp
qed

lemma scan_state_ok_init: "scan_state_ok kk [] (False, False, - 1, None)"
  by (simp add: scan_state_ok_def)

text \<open>What the loop has established about all nodes, in the words of the policy.\<close>

lemma scan_state_ok_victim:
  assumes ok: "scan_state_ok kk ns (hi, he, mx, out)" and d: "distinct (map fst ns)"
  shows "(he \<longleftrightarrow> evictable_nodes ns \<noteq> [])"
    and "he \<Longrightarrow> \<exists>f. out = Some f \<and> lruk_victim kk ns f"
proof -
  show 1: "(he \<longleftrightarrow> evictable_nodes ns \<noteq> [])"
    using ok unfolding scan_state_ok_def by (auto simp: evictable_nodes_def filter_empty_conv)
  assume he
  with ok obtain f n where o: "out = Some f" "(f, n) \<in> set ns" "is_evictable n" "oldest n = mx"
    and c: "if hi then length (history n) < kk \<and>
                   (\<forall>p\<in>set ns. is_evictable (snd p) \<and> length (history (snd p)) < kk
                           \<longrightarrow> mx \<le> oldest (snd p))
            else (\<forall>p\<in>set ns. is_evictable (snd p) \<longrightarrow> mx \<le> oldest (snd p))"
    unfolding scan_state_ok_def by (cases out) auto
  have hi_iff: "hi \<longleftrightarrow> (\<exists>p\<in>set ns. is_evictable (snd p) \<and> length (history (snd p)) < kk)"
    using ok unfolding scan_state_ok_def by simp
  have m: "map_of ns f = Some n" using o(2) d by simp
  have hi2: "hi \<longleftrightarrow> (\<exists>g m. map_of ns g = Some m \<and> is_evictable m \<and> length (history m) < kk)"
    unfolding hi_iff using d by (metis map_of_eq_Some_iff prod.collapse snd_conv)
  have "lruk_victim kk ns f"
    unfolding lruk_victim_iff[OF d]
  proof (intro exI[of _ n] conjI m o(3))
    show "if \<exists>g m. map_of ns g = Some m \<and> is_evictable m \<and> length (history m) < kk
      then length (history n) < kk \<and>
           (\<forall>g m. map_of ns g = Some m \<and> is_evictable m \<and> length (history m) < kk \<longrightarrow> oldest n \<le> oldest m)
      else \<forall>g m. map_of ns g = Some m \<and> is_evictable m \<longrightarrow> oldest n \<le> oldest m"
    proof (cases hi)
      case True
      with c have "length (history n) < kk" and
        "\<forall>p\<in>set ns. is_evictable (snd p) \<and> length (history (snd p)) < kk \<longrightarrow> mx \<le> oldest (snd p)"
        by simp_all
      then have "\<forall>g m. map_of ns g = Some m \<and> is_evictable m \<and> length (history m) < kk \<longrightarrow> oldest n \<le> oldest m"
        using o(4) by (metis map_of_SomeD snd_conv)
      with True \<open>length (history n) < kk\<close> show ?thesis unfolding hi2[symmetric] by simp
    next
      case False
      with c have "\<forall>p\<in>set ns. is_evictable (snd p) \<longrightarrow> mx \<le> oldest (snd p)" by simp
      then have "\<forall>g m. map_of ns g = Some m \<and> is_evictable m \<longrightarrow> oldest n \<le> oldest m"
        using o(4) by (metis map_of_SomeD snd_conv)
      with False show ?thesis unfolding hi2[symmetric] by simp
    qed
  qed
  with o(1) show "\<exists>f. out = Some f \<and> lruk_victim kk ns f" by blast
qed

lemma scan_inv_erase: "scan_inv r \<Longrightarrow>
   scan_inv (r\<lparr>node_store := store_erase f (node_store r), curr_size := c\<rparr>)"
  by (auto simp: scan_inv_def store_erase_def distinct_map_filter list_all_iff)

lemma Evict_part_003_policy:
  assumes "scan_inv r"
  shows "\<exists>res r'. Evict_part_003 r = Inr (res, r') \<and>
          (res = None \<longleftrightarrow> evictable_nodes (node_store r) = []) \<and>
          (res = None \<longrightarrow> r' = r) \<and>
          (\<forall>f. res = Some f \<longrightarrow>
               lruk_victim (replacer_k r) (node_store r) f \<and>
               node_store r' = store_erase f (node_store r) \<and>
               map_of (node_store r') f = None \<and>
               curr_size r' = curr_size r - 1 \<and>
               scan_inv r')"
proof -
  from assms have d: "distinct (map fst (node_store r))"
    and l: "list_all (\<lambda>p. history (snd p) \<noteq> [] \<and> oldest (snd p) < - 1) (node_store r)"
    by (simp_all add: scan_inv_def)
  from Evict_scan_ok[OF l scan_state_ok_init, of "replacer_k r"]
  obtain hi he mx out where s: "Evict_scan (replacer_k r) (node_store r) (False, False, - 1, None) = Inr (hi, he, mx, out)"
    and ok: "scan_state_ok (replacer_k r) (node_store r) (hi, he, mx, out)"
    by (metis append_Nil prod_cases4)
  note v = scan_state_ok_victim[OF ok d]
  show ?thesis
  proof (cases he)
    case False
    with v(1) s show ?thesis by (simp add: Evict_part_003_def bind_err_def)
  next
    case True
    with v(2) obtain f where f: "out = Some f" "lruk_victim (replacer_k r) (node_store r) f" by blast
    with True v(1) s scan_inv_erase[OF assms] show ?thesis
      by (simp add: Evict_part_003_def bind_err_def map_of_store_erase)
  qed
qed

lemma find_None_ev:
  assumes "find P ps = None" "p \<in> set ps"
  shows "\<not> P p"
  using assms by (auto simp: find_None_iff)

lemma replacer_inv_distinct: "replacer_inv r \<Longrightarrow> distinct (map fst (node_store r))"
  by (simp add: replacer_inv_def)

lemma replacer_inv_erase:
  assumes inv: "replacer_inv r" and m: "map_of (node_store r) f = Some n"
  shows "length (history n) < replacer_k r \<Longrightarrow>
         replacer_inv (r\<lparr>lru_less_k := set_erase (oldest n, f) (lru_less_k r),
            node_store := store_erase f (node_store r), curr_size := c\<rparr>)"
    and "\<not> length (history n) < replacer_k r \<Longrightarrow>
         replacer_inv (r\<lparr>lru_k := set_erase (oldest n, f) (lru_k r),
            node_store := store_erase f (node_store r), curr_size := c\<rparr>)"
proof -
  let ?ns = "node_store r" and ?ns' = "store_erase f (node_store r)"
  have d: "distinct (map fst ?ns)" using inv by (simp add: replacer_inv_def)
  have d': "distinct (map fst ?ns')" using d by (simp add: store_erase_def distinct_map_filter)
  have la: "list_all (\<lambda>p. history (snd p) \<noteq> []) ?ns'"
    using inv by (auto simp: replacer_inv_def store_erase_def list_all_iff)
  have s1: "\<And>x. sorted_wrt pair_less (set_erase x (lru_less_k r))"
    and s2: "\<And>x. sorted_wrt pair_less (set_erase x (lru_k r))"
    and s0: "sorted_wrt pair_less (lru_less_k r)" "sorted_wrt pair_less (lru_k r)"
    using inv by (simp_all add: replacer_inv_def set_erase_def removeAll_filter_not_eq sorted_wrt_filter)
  have uniq: "\<And>na. (f, na) \<in> set ?ns \<Longrightarrow> na = n"
    using m d by (metis map_of_is_SomeI option.inject)
  have mem': "\<And>Q t g. (t, g) \<in> set (set_keys (filter Q ?ns')) \<longleftrightarrow>
      g \<noteq> f \<and> (t, g) \<in> set (set_keys (filter Q ?ns))"
    unfolding mem_set_keys by (auto simp: store_erase_def)
  have only: "\<And>Q t. (t, f) \<in> set (set_keys (filter Q ?ns)) \<Longrightarrow> t = oldest n"
    unfolding mem_set_keys using uniq by auto
  have e1: "\<And>Q. set (set_keys (filter Q ?ns)) - {(oldest n, f)} = set (set_keys (filter Q ?ns'))"
    using mem' only by (auto; blast)
  have nl: "\<And>Q. \<not> Q (f, n) \<Longrightarrow> set (set_keys (filter Q ?ns)) = set (set_keys (filter Q ?ns'))"
  proof -
    fix Q :: "nat \<times> LRUKNode \<Rightarrow> bool" assume q: "\<not> Q (f, n)"
    have "\<And>t. (t, f) \<notin> set (set_keys (filter Q ?ns))"
      unfolding mem_set_keys using uniq q by auto
    then show "set (set_keys (filter Q ?ns)) = set (set_keys (filter Q ?ns'))"
      using mem' by (auto; blast)
  qed
  have L: "set (lru_less_k r) = set (set_keys (filter (\<lambda>p. length (history (snd p)) < replacer_k r) ?ns))"
    and K: "set (lru_k r) = set (set_keys (filter (\<lambda>p. \<not> length (history (snd p)) < replacer_k r) ?ns))"
    using inv by (simp_all add: replacer_inv_def)
  {
    assume l: "length (history n) < replacer_k r"
    then have "set (lru_k r) = set (set_keys (filter (\<lambda>p. \<not> length (history (snd p)) < replacer_k r) ?ns'))"
      using nl[of "\<lambda>p. \<not> length (history (snd p)) < replacer_k r"] K by simp
    moreover have "set (set_erase (oldest n, f) (lru_less_k r)) =
        set (set_keys (filter (\<lambda>p. length (history (snd p)) < replacer_k r) ?ns'))"
      using e1[of "\<lambda>p. length (history (snd p)) < replacer_k r"] L by (simp add: set_erase_def)
    ultimately show "replacer_inv (r\<lparr>lru_less_k := set_erase (oldest n, f) (lru_less_k r),
            node_store := store_erase f (node_store r), curr_size := c\<rparr>)"
      using d' la s1 s0 by (simp add: replacer_inv_def)
  }
  {
    assume l: "\<not> length (history n) < replacer_k r"
    then have "set (lru_less_k r) = set (set_keys (filter (\<lambda>p. length (history (snd p)) < replacer_k r) ?ns'))"
      using nl[of "\<lambda>p. length (history (snd p)) < replacer_k r"] L by simp
    moreover have "set (set_erase (oldest n, f) (lru_k r)) =
        set (set_keys (filter (\<lambda>p. \<not> length (history (snd p)) < replacer_k r) ?ns'))"
      using e1[of "\<lambda>p. \<not> length (history (snd p)) < replacer_k r"] K by (simp add: set_erase_def)
    ultimately show "replacer_inv (r\<lparr>lru_k := set_erase (oldest n, f) (lru_k r),
            node_store := store_erase f (node_store r), curr_size := c\<rparr>)"
      using d' la s2 s0 by (simp add: replacer_inv_def)
  }
qed

lemma Evict_named_policy:
  assumes inv: "replacer_inv r"
  shows "(fst (Evict r) = None \<longleftrightarrow> evictable_nodes (node_store r) = []) \<and>
         (fst (Evict r) = None \<longrightarrow> snd (Evict r) = r) \<and>
         (\<forall>f. fst (Evict r) = Some f \<longrightarrow>
              lruk_victim (replacer_k r) (node_store r) f \<and>
              node_store (snd (Evict r)) = store_erase f (node_store r) \<and>
              map_of (node_store (snd (Evict r))) f = None \<and>
              curr_size (snd (Evict r)) = curr_size r - 1 \<and>
              replacer_inv (snd (Evict r)))"
proof -
  let ?ns = "node_store r"
  let ?P = "\<lambda>p. case map_of ?ns (snd p) of None \<Rightarrow> False | Some n \<Rightarrow> is_evictable n"
  note d = replacer_inv_distinct[OF inv]
  note lm = inv_less_mem[OF inv] and km = inv_k_mem[OF inv]
  have sl: "sorted_wrt pair_less (lru_less_k r)" and sk: "sorted_wrt pair_less (lru_k r)"
    using inv by (simp_all add: replacer_inv_def)
  show ?thesis
  proof (cases "find ?P (lru_less_k r)")
    case (Some p)
    obtain t f where p: "p = (t, f)" by (cases p) auto
    from find_sorted_least[OF sl Some] have pin: "(t, f) \<in> set (lru_less_k r)" and pp: "?P (t, f)"
      and least: "\<forall>q\<in>set (lru_less_k r). ?P q \<longrightarrow> t \<le> fst q"
      by (simp_all add: p)
    from pin lm obtain n where n: "map_of ?ns f = Some n" "length (history n) < replacer_k r" "oldest n = t"
      by blast
    from pp n have ev: "is_evictable n" by simp
    have E: "Evict r = (Some f, r\<lparr>lru_less_k := set_erase (t, f) (lru_less_k r),
             node_store := store_erase f ?ns, curr_size := curr_size r - 1\<rparr>)"
      by (simp add: Evict_def inv_loops(1)[OF inv] Some p)
    have V: "lruk_victim (replacer_k r) ?ns f"
      unfolding lruk_victim_iff[OF d]
    proof (intro exI[of _ n] conjI n(1) ev)
      have ex: "\<exists>g m. map_of ?ns g = Some m \<and> is_evictable m \<and> length (history m) < replacer_k r"
        using n ev by blast
      have "\<forall>g m. map_of ?ns g = Some m \<and> is_evictable m \<and> length (history m) < replacer_k r \<longrightarrow> oldest n \<le> oldest m"
      proof (intro allI impI)
        fix g m assume a: "map_of ?ns g = Some m \<and> is_evictable m \<and> length (history m) < replacer_k r"
        then have "(oldest m, g) \<in> set (lru_less_k r)" using lm by blast
        moreover have "?P (oldest m, g)" using a by simp
        ultimately show "oldest n \<le> oldest m" using least n(3) by fastforce
      qed
      with ex n(2) show "if \<exists>g m. map_of ?ns g = Some m \<and> is_evictable m \<and> length (history m) < replacer_k r
          then length (history n) < replacer_k r \<and>
               (\<forall>g m. map_of ?ns g = Some m \<and> is_evictable m \<and> length (history m) < replacer_k r \<longrightarrow> oldest n \<le> oldest m)
          else \<forall>g m. map_of ?ns g = Some m \<and> is_evictable m \<longrightarrow> oldest n \<le> oldest m"
        by simp
    qed
    have ne: "evictable_nodes ?ns \<noteq> []"
      unfolding evictable_nodes_empty_iff[OF d] using n ev by blast
    show ?thesis
      using V ne replacer_inv_erase(1)[OF inv n(1) n(2), of "curr_size r - 1"] n(3)
      by (simp add: E map_of_store_erase)
  next
    case None
    have noinf: "\<not> (\<exists>g m. map_of ?ns g = Some m \<and> is_evictable m \<and> length (history m) < replacer_k r)"
    proof
      assume "\<exists>g m. map_of ?ns g = Some m \<and> is_evictable m \<and> length (history m) < replacer_k r"
      then obtain g m where a: "map_of ?ns g = Some m" "is_evictable m" "length (history m) < replacer_k r"
        by blast
      then have "(oldest m, g) \<in> set (lru_less_k r)" using lm by blast
      from find_None_ev[OF None this] a show False by simp
    qed
    show ?thesis
    proof (cases "find ?P (lru_k r)")
      case (Some p)
      obtain t f where p: "p = (t, f)" by (cases p) auto
      from find_sorted_least[OF sk Some] have pin: "(t, f) \<in> set (lru_k r)" and pp: "?P (t, f)"
        and least: "\<forall>q\<in>set (lru_k r). ?P q \<longrightarrow> t \<le> fst q"
        by (simp_all add: p)
      from pin km obtain n where n: "map_of ?ns f = Some n" "\<not> length (history n) < replacer_k r" "oldest n = t"
        by blast
      from pp n have ev: "is_evictable n" by simp
      have E: "Evict r = (Some f, r\<lparr>lru_k := set_erase (t, f) (lru_k r),
             node_store := store_erase f ?ns, curr_size := curr_size r - 1\<rparr>)"
        by (simp add: Evict_def inv_loops[OF inv] None Some p)
      have V: "lruk_victim (replacer_k r) ?ns f"
        unfolding lruk_victim_iff[OF d]
      proof (intro exI[of _ n] conjI n(1) ev)
        have "\<forall>g m. map_of ?ns g = Some m \<and> is_evictable m \<longrightarrow> oldest n \<le> oldest m"
        proof (intro allI impI)
          fix g m assume a: "map_of ?ns g = Some m \<and> is_evictable m"
          with noinf have "\<not> length (history m) < replacer_k r" by blast
          with a have "(oldest m, g) \<in> set (lru_k r)" using km by blast
          moreover have "?P (oldest m, g)" using a by simp
          ultimately show "oldest n \<le> oldest m" using least n(3) by fastforce
        qed
        with noinf show "if \<exists>g m. map_of ?ns g = Some m \<and> is_evictable m \<and> length (history m) < replacer_k r
          then length (history n) < replacer_k r \<and>
               (\<forall>g m. map_of ?ns g = Some m \<and> is_evictable m \<and> length (history m) < replacer_k r \<longrightarrow> oldest n \<le> oldest m)
          else \<forall>g m. map_of ?ns g = Some m \<and> is_evictable m \<longrightarrow> oldest n \<le> oldest m"
          by (simp only: if_False)
      qed
      have ne: "evictable_nodes ?ns \<noteq> []"
        unfolding evictable_nodes_empty_iff[OF d] using n ev by blast
      show ?thesis
        using V ne replacer_inv_erase(2)[OF inv n(1) n(2), of "curr_size r - 1"] n(3)
        by (simp add: E map_of_store_erase)
    next
      case N2: None
      have E: "Evict r = (None, r)"
        by (simp add: Evict_def inv_loops[OF inv] None N2)
      have "evictable_nodes ?ns = []"
        unfolding evictable_nodes_empty_iff[OF d]
      proof
        assume "\<exists>g m. map_of ?ns g = Some m \<and> is_evictable m"
        then obtain g m where a: "map_of ?ns g = Some m" "is_evictable m" by blast
        with noinf have "\<not> length (history m) < replacer_k r" by blast
        with a have "(oldest m, g) \<in> set (lru_k r)" using km by blast
        from find_None_ev[OF N2 this] a show False by simp
      qed
      then show ?thesis by (simp add: E)
    qed
  qed
qed

lemma replacer_inv_three: "replacer_inv replacer_three"
  by (simp add: replacer_inv_def replacer_three_def set_keys_def oldest_def pair_less_def)

lemma scan_inv_three: "scan_inv replacer_three"
  by (simp add: scan_inv_def replacer_three_def oldest_def word_order.not_eq_extremum[symmetric])

text \<open>
  C3. In a state of the replacer that satisfies its invariant, \<^verbatim>\<open>Evict\<close> returns no frame
  exactly when no node is evictable (and then changes nothing); otherwise it returns a
  victim of the policy (an evictable frame; one with fewer than \<open>k\<close> accesses and the
  smallest oldest time stamp among those, if there is any such frame; else one with the
  smallest oldest time stamp among all evictable frames), and forgets it: the node is
  erased, \<^verbatim>\<open>curr_size_\<close> is one less, and the invariant holds again. This holds of the
  \<^verbatim>\<open>Evict\<close> over the two ordered sets and of the scanning \<^verbatim>\<open>Evict\<close>.
\<close>

theorem Evict_policy:
  "(replacer_inv r \<longrightarrow>
      (fst (Evict r) = None \<longleftrightarrow> evictable_nodes (node_store r) = []) \<and>
      (fst (Evict r) = None \<longrightarrow> snd (Evict r) = r) \<and>
      (\<forall>f. fst (Evict r) = Some f \<longrightarrow>
           lruk_victim (replacer_k r) (node_store r) f \<and>
           node_store (snd (Evict r)) = store_erase f (node_store r) \<and>
           map_of (node_store (snd (Evict r))) f = None \<and>
           curr_size (snd (Evict r)) = curr_size r - 1 \<and>
           replacer_inv (snd (Evict r)))) \<and>
   (scan_inv r \<longrightarrow>
      (\<exists>res r'. Evict_part_003 r = Inr (res, r') \<and>
          (res = None \<longleftrightarrow> evictable_nodes (node_store r) = []) \<and>
          (res = None \<longrightarrow> r' = r) \<and>
          (\<forall>f. res = Some f \<longrightarrow>
               lruk_victim (replacer_k r) (node_store r) f \<and>
               node_store r' = store_erase f (node_store r) \<and>
               map_of (node_store r') f = None \<and>
               curr_size r' = curr_size r - 1 \<and>
               scan_inv r')))"
  using Evict_named_policy[of r] Evict_part_003_policy[of r] by blast

theorem Evict_policy_witness:
  "replacer_inv replacer_three \<and> scan_inv replacer_three \<and>
   fst (Evict replacer_three) = Some 1 \<and>
   (\<exists>r'. Evict_part_003 replacer_three = Inr (Some 1, r') \<and> scan_inv r') \<and>
   lruk_victim (replacer_k replacer_three) (node_store replacer_three) 1 \<and>
   \<not> lruk_victim (replacer_k replacer_three) (node_store replacer_three) 0 \<and>
   map_of (node_store (snd (Evict replacer_three))) 1 = None \<and>
   replacer_inv (snd (Evict replacer_three))"
proof -
  have e1: "fst (Evict replacer_three) = Some 1"
    by (simp add: Evict_def replacer_three_def)
  have e2: "\<exists>r'. Evict_part_003 replacer_three = Inr (Some 1, r')"
    by (simp add: Evict_part_003_def replacer_three_def bind_err_def
        word_order.not_eq_extremum[symmetric])
  have n0: "\<not> lruk_victim (replacer_k replacer_three) (node_store replacer_three) 0"
    by (simp add: lruk_victim_def replacer_three_def evictable_nodes_def)
  from Evict_policy[of replacer_three] replacer_inv_three scan_inv_three e1 e2 n0
  show ?thesis by fastforce
qed

section \<open>Properties of the B+ tree\<close>

lemma spec_split_offset_ceiling:
  "s + 1 \<le> 2 * spec_split_offset s \<and> 2 * spec_split_offset s < s + 3"
  by (simp add: spec_split_offset_def) presburger

text \<open>
  C4, as stated, on a leaf of four slots: the left leaf keeps two slots, while
  \<open>\<lceil>(4 + 1) / 2\<rceil>\<close> is three.
\<close>

theorem SplitLeaf_offset_counterexample:
  "leaf_keys leaf4_tree 1 = Some [1, 2, 3, 4] \<and>
   map_option (\<lambda>r. leaf_keys (fst r) 1) (SplitLeaf leaf4_tree 1) = Some (Some [1, 2]) \<and>
   length [1, 2 :: int] \<noteq> spec_split_offset 4"
  by (simp add: leaf4_tree_def SplitLeaf_def NewLeafPage_def array_Split_def split_offset_def
      first_key_def leaf_keys_def spec_split_offset_def)

text \<open>
  C4, amended. \<^verbatim>\<open>SplitLeaf\<close> of a leaf of \<open>s \<ge> 2\<close> slots at a page other than the next new
  page, where the pool has a frame for the new leaf and \<^verbatim>\<open>Init\<close> accepts the maximum size:
  the offset is \<open>\<lfloor>(s + 1) / 2\<rfloor>\<close>; the slots from the offset on are the slots of the new
  leaf; the old leaf keeps \<open>offset\<close> slots and the new one has \<open>s - offset\<close>; the new leaf's
  next pointer is the old leaf's, and the old leaf's next pointer is the new leaf; the
  key handed to the parent is the first key of the new leaf; no other page changes.
\<close>

theorem SplitLeaf_spec:
  assumes "bt_pages t pid = Some (Leaf l)" "pid \<noteq> bt_next_page_id t" "2 \<le> length (l_array l)"
    and "new_page_ok t (bt_next_page_id t)" "leaf_max_size t \<le> leaf_page_size t"
  shows "\<exists>t'. SplitLeaf t pid =
           Some (t', fst (hd (drop (split_offset (length (l_array l))) (l_array l))), bt_next_page_id t) \<and>
         split_offset (length (l_array l)) = (length (l_array l) + 1) div 2 \<and>
         bt_pages t' pid = Some (Leaf (l\<lparr>l_array := take (split_offset (length (l_array l))) (l_array l),
                                         l_next_page_id := bt_next_page_id t\<rparr>)) \<and>
         bt_pages t' (bt_next_page_id t) =
           Some (Leaf \<lparr>l_max_size = leaf_max_size t, l_next_page_id = l_next_page_id l,
                       l_array = drop (split_offset (length (l_array l))) (l_array l)\<rparr>) \<and>
         length (take (split_offset (length (l_array l))) (l_array l)) = split_offset (length (l_array l)) \<and>
         length (drop (split_offset (length (l_array l))) (l_array l)) =
           length (l_array l) - split_offset (length (l_array l)) \<and>
         (\<forall>q. q \<noteq> pid \<and> q \<noteq> bt_next_page_id t \<longrightarrow> bt_pages t' q = bt_pages t q) \<and>
         root_page_id t' = root_page_id t \<and> bt_next_page_id t' = bt_next_page_id t + 1"
proof -
  let ?s = "length (l_array l)"
  have lt: "split_offset ?s < ?s" using assms(3) by (simp add: split_offset_def)
  then obtain x xs where d: "drop (split_offset ?s) (l_array l) = x # xs"
    by (cases "drop (split_offset ?s) (l_array l)") auto
  have fk: "first_key (drop (split_offset ?s) (l_array l)) =
      Some (fst (hd (drop (split_offset ?s) (l_array l))))"
    by (simp add: d first_key_def)
  have so: "split_offset ?s = (?s + 1) div 2" by (simp add: split_offset_def)
  have ll: "length (take (split_offset ?s) (l_array l)) = split_offset ?s" using lt by simp
  show ?thesis
    using assms(1,2,4,5) fk so ll
    by (simp add: SplitLeaf_def NewLeafPage_def array_Split_def del: length_take)
qed

theorem SplitLeaf_spec_witness:
  "\<exists>t'. SplitLeaf leaf4_tree 1 = Some (t', 3, 2) \<and>
      leaf_keys t' 1 = Some [1, 2] \<and> leaf_keys t' 2 = Some [3, 4] \<and>
      bt_pages t' 2 = Some (Leaf \<lparr>l_max_size = 4, l_next_page_id = INVALID_PAGE_ID, l_array = [(3, 3), (4, 4)]\<rparr>) \<and>
      bt_pages t' 1 = Some (Leaf \<lparr>l_max_size = 4, l_next_page_id = 2, l_array = [(1, 1), (2, 2)]\<rparr>)"
proof -
  have a: "bt_pages leaf4_tree 1 = Some (Leaf \<lparr>l_max_size = 4, l_next_page_id = INVALID_PAGE_ID,
                               l_array = [(1, 1), (2, 2), (3, 3), (4, 4)]\<rparr>)"
    "1 \<noteq> bt_next_page_id leaf4_tree"
    "2 \<le> length (l_array \<lparr>l_max_size = 4, l_next_page_id = INVALID_PAGE_ID,
                               l_array = [(1, 1), (2, 2), (3, 3), (4::int, 4::int)]\<rparr>)"
    "new_page_ok leaf4_tree (bt_next_page_id leaf4_tree)"
    "leaf_max_size leaf4_tree \<le> leaf_page_size leaf4_tree"
    by (simp_all add: leaf4_tree_def)
  from SplitLeaf_spec[OF a] show ?thesis
    by (auto simp: split_offset_def leaf4_tree_def leaf_keys_def)
qed

text \<open>
  C5, as stated: after the keys 1 to 5 (\<open>leaf_max = internal_max = 3\<close>) the root has three
  children and the separator keys 3 and 5, not two children and the separator 3.
\<close>

theorem growth_scenario_counterexample:
  "root_children (tree_after [1, 2, 3, 4, 5] 3 3) = [1, 2, 4] \<and>
   root_separators (tree_after [1, 2, 3, 4, 5] 3 3) = [3, 5]"
  by code_simp

text \<open>
  C5, amended. With \<open>leaf_max = internal_max = 3\<close> and the keys 1 to 5 inserted in order
  into an empty tree (each insert returns true): after 1, 2 the root is the leaf [1, 2];
  inserting 3 splits it, and the root is an internal page over the leaves [1, 2] and [3]
  with separator 3; after 5 the root has three children, the leaves [1, 2], [3, 4] and
  [5] (height 2), with separators 3 and 5; then \<^verbatim>\<open>GetValue(4)\<close> finds the record id of 4 and
  \<^verbatim>\<open>GetValue(6)\<close> finds nothing.
\<close>

theorem growth_scenario:
  "map_option snd (insert_keys [1, 2, 3, 4, 5] (BPlusTree_init 3 3 3 4 (\<lambda>p. True) 1)) =
     Some [True, True, True, True, True] \<and>
   leaf_keys (tree_after [1, 2] 3 3) (root_page_id (tree_after [1, 2] 3 3)) = Some [1, 2] \<and>
   root_children (tree_after [1, 2, 3] 3 3) = [1, 2] \<and>
   root_separators (tree_after [1, 2, 3] 3 3) = [3] \<and>
   leaf_keys (tree_after [1, 2, 3] 3 3) 1 = Some [1, 2] \<and>
   leaf_keys (tree_after [1, 2, 3] 3 3) 2 = Some [3] \<and>
   root_children (tree_after [1, 2, 3, 4, 5] 3 3) = [1, 2, 4] \<and>
   root_separators (tree_after [1, 2, 3, 4, 5] 3 3) = [3, 5] \<and>
   leaf_keys (tree_after [1, 2, 3, 4, 5] 3 3) 1 = Some [1, 2] \<and>
   leaf_keys (tree_after [1, 2, 3, 4, 5] 3 3) 2 = Some [3, 4] \<and>
   leaf_keys (tree_after [1, 2, 3, 4, 5] 3 3) 4 = Some [5] \<and>
   GetValue (tree_after [1, 2, 3, 4, 5] 3 3) 4 = Some (Some 4) \<and>
   GetValue (tree_after [1, 2, 3, 4, 5] 3 3) 6 = Some None"
  by code_simp


section \<open>Arrays of slots\<close>

lemma ifb_length [simp]: "length (insert_from_back key v xs) = Suc (length xs)"
  by (induction xs) auto

lemma ifb_set [simp]: "set (insert_from_back key v xs) = insert (key, v) (set xs)"
  by (induction xs) auto

lemma ifb_append_skip:
  "\<forall>y\<in>set ys. \<not> fst y < key \<Longrightarrow>
   insert_from_back key v (ys @ zs) = ys @ insert_from_back key v zs"
  by (induction ys) auto

lemma ifb_append_stop:
  "zs = [] \<or> fst (hd zs) < key \<Longrightarrow>
   insert_from_back key v (ys @ zs) = insert_from_back key v ys @ zs"
proof (induction ys)
  case Nil
  then show ?case by (cases zs) auto
next
  case (Cons a ys)
  then show ?case by simp
qed

lemma array_Insert_length [simp]: "length (array_Insert key v xs) = Suc (length xs)"
  by (simp add: array_Insert_def)

lemma array_Insert_set [simp]: "set (array_Insert key v xs) = insert (key, v) (set xs)"
  by (simp add: array_Insert_def)

lemma array_Insert_not_Nil [simp]: "array_Insert key v xs \<noteq> []"
  by (metis array_Insert_length length_0_conv nat.distinct(1))

lemma array_Insert_Nil [simp]: "array_Insert key v [] = [(key, v)]"
  by (simp add: array_Insert_def)

lemma array_Insert_mid:
  assumes "A = [] \<or> fst (last A) < key" "\<forall>x\<in>set B. \<not> fst x < key"
  shows "array_Insert key v (A @ C @ B) = A @ array_Insert key v C @ B"
proof -
  have "insert_from_back key v (rev B @ rev C @ rev A) = rev B @ insert_from_back key v (rev C @ rev A)"
    using assms(2) by (simp add: ifb_append_skip)
  also have "insert_from_back key v (rev C @ rev A) = insert_from_back key v (rev C) @ rev A"
    using assms(1) by (intro ifb_append_stop) (auto simp: hd_rev)
  finally show ?thesis by (simp add: array_Insert_def)
qed

lemma array_Insert_place:
  assumes "A = [] \<or> fst (last A) < key" "\<forall>x\<in>set B. \<not> fst x < key"
  shows "array_Insert key v (A @ B) = A @ (key, v) # B"
  using array_Insert_mid[OF assms, of v "[]"] by simp

lemma array_Insert_map:
  "map (\<lambda>e. (fst e, f (snd e))) (array_Insert key v es) =
   array_Insert key (f v) (map (\<lambda>e. (fst e, f (snd e))) es)"
proof -
  have "\<And>xs. map (\<lambda>e. (fst e, f (snd e))) (insert_from_back key v xs) =
      insert_from_back key (f v) (map (\<lambda>e. (fst e, f (snd e))) xs)"
    subgoal for xs by (induction xs) auto
    done
  then have "insert_from_back key (f v) (map (\<lambda>e. (fst e, f (snd e))) (rev es)) =
      map (\<lambda>e. (fst e, f (snd e))) (insert_from_back key v (rev es))"
    by simp
  then show ?thesis by (simp add: array_Insert_def rev_map)
qed

text \<open>In an ascending array the new pair goes between the smaller and the larger keys.\<close>

lemma sorted_split_at:
  assumes "sorted_wrt (<) (map fst xs)"
  shows "\<exists>A B. xs = A @ B \<and> (\<forall>x\<in>set A. fst x < key) \<and> (\<forall>x\<in>set B. \<not> fst x < (key::'k::linorder))"
  using assms
proof (induction xs)
  case Nil
  then show ?case by simp
next
  case (Cons a xs)
  then obtain A B where ab: "xs = A @ B" "\<forall>x\<in>set A. fst x < key" "\<forall>x\<in>set B. \<not> fst x < key"
    by auto
  show ?case
  proof (cases "fst a < key")
    case True
    have "a # xs = (a # A) @ B" using ab(1) by simp
    moreover have "\<forall>x\<in>set (a # A). fst x < key" using True ab(2) by simp
    ultimately show ?thesis using ab(3) by blast
  next
    case False
    have "\<forall>x\<in>set xs. fst a < fst x" using Cons.prems by simp
    then have "\<forall>x\<in>set (a # xs). \<not> fst x < key" using False by fastforce
    then have "a # xs = [] @ (a # xs) \<and> (\<forall>x\<in>set []. fst x < key) \<and> (\<forall>x\<in>set (a # xs). \<not> fst x < key)"
      by simp
    then show ?thesis by blast
  qed
qed

lemma array_Insert_sorted:
  assumes "sorted_wrt (<) (map fst xs)" "key \<notin> fst ` set xs"
  shows "sorted_wrt (<) (map fst (array_Insert key v xs))"
    and "map_of (array_Insert key v xs) = (map_of xs)(key \<mapsto> v)"
proof -
  from sorted_split_at[OF assms(1), of key] obtain A B where
    x: "xs = A @ B" and a: "\<forall>x\<in>set A. fst x < key" and b: "\<forall>x\<in>set B. \<not> fst x < key"
    by blast
  have "A = [] \<or> fst (last A) < key" using a by (cases "A = []") auto
  then have e: "array_Insert key v xs = A @ (key, v) # B"
    unfolding x using b by (intro array_Insert_place) auto
  have b': "\<forall>x\<in>set B. key < fst x"
  proof
    fix y assume y: "y \<in> set B"
    then have "fst y \<noteq> key" using assms(2) x by force
    with b y show "key < fst y" by force
  qed
  have sA: "sorted_wrt (<) (map fst A)" and sB: "sorted_wrt (<) (map fst B)"
    using assms(1) unfolding x by (simp_all add: sorted_wrt_append)
  have "sorted_wrt (<) (map fst A @ key # map fst B)"
    unfolding sorted_wrt_append using sA sB a b' by fastforce
  then show "sorted_wrt (<) (map fst (array_Insert key v xs))"
    by (simp add: e)
  have "key \<notin> fst ` set A" using a by auto
  then have "map_of A key = None" by (simp add: map_of_eq_None_iff)
  then have "map_of (A @ (key, v) # B) = (map_of (A @ B))(key \<mapsto> v)"
    by (auto simp: fun_eq_iff map_add_def split: option.splits)
  then show "map_of (array_Insert key v xs) = (map_of xs)(key \<mapsto> v)"
    unfolding e unfolding x .
qed

lemma leaf_GetValue_map_of:
  "sorted_wrt (<) (map fst xs) \<Longrightarrow> leaf_GetValue key xs = map_of xs key"
proof (induction key xs rule: leaf_GetValue.induct)
  case (1 key)
  then show ?case by simp
next
  case (2 key k v)
  then show ?case by simp
next
  case (3 key k v k' v' rest)
  show ?case
  proof (cases "key < k'")
    case True
    then have "map_of ((k', v') # rest) key = None"
      using 3(2) by (force simp: map_of_eq_None_iff)
    with True show ?thesis by simp
  next
    case False
    then have "key \<noteq> k" using 3(2) by auto
    with False 3 show ?thesis by simp
  qed
qed


lemma leaf_Remove_length:
  "key \<in> fst ` set xs \<Longrightarrow> Suc (length (leaf_Remove key xs)) = length xs"
  by (induction xs) auto



lemma child_index_Some:
  assumes "es \<noteq> []"
  shows "\<exists>i. child_index key es = Some i \<and> i < length es \<and>
           (Suc i < length es \<longrightarrow> key < fst (es ! Suc i)) \<and>
           (\<forall>j. 0 < j \<and> j \<le> i \<longrightarrow> \<not> key < fst (es ! j))"
  using assms
proof (induction key es rule: child_index.induct)
  case (1 key)
  then show ?case by simp
next
  case (2 key x)
  then show ?case by simp
next
  case (3 key x y rest)
  show ?case
  proof (cases "key < fst y")
    case True
    then show ?thesis by auto
  next
    case False
    from 3(1)[OF False] obtain i where i: "child_index key (y # rest) = Some i" "i < length (y # rest)"
      "Suc i < length (y # rest) \<longrightarrow> key < fst ((y # rest) ! Suc i)"
      "\<forall>j. 0 < j \<and> j \<le> i \<longrightarrow> \<not> key < fst ((y # rest) ! j)"
      by auto
    have "\<forall>j. 0 < j \<and> j \<le> Suc i \<longrightarrow> \<not> key < fst ((x # y # rest) ! j)"
    proof (intro allI impI)
      fix j assume j: "0 < j \<and> j \<le> Suc i"
      then obtain j' where j': "j = Suc j'" by (cases j) auto
      show "\<not> key < fst ((x # y # rest) ! j)"
      proof (cases j')
        case 0
        with j' False show ?thesis by simp
      next
        case (Suc n)
        with j j' have "0 < j' \<and> j' \<le> i" by simp
        with i(4) have "\<not> key < fst ((y # rest) ! j')" by blast
        with j' show ?thesis by simp
      qed
    qed
    with False i show ?thesis by simp
  qed
qed

lemma child_index_map [simp]:
  "child_index key (map (\<lambda>e. (fst e, f (snd e))) es) = child_index key es"
  by (induction key es rule: child_index.induct) auto

lemma child_index_hd: "child_index key (x # rest) = child_index key (y # rest)"
  by (cases rest) auto

lemma child_index_lower_first [simp]:
  "es \<noteq> [] \<Longrightarrow> child_index key (lower_first k' es) = child_index key es"
  by (cases es) (auto simp: lower_first_def intro: child_index_hd)

lemma lower_first_length [simp]: "es \<noteq> [] \<Longrightarrow> length (lower_first key es) = length es"
  by (cases es) (auto simp: lower_first_def)

lemma lower_first_map:
  "es \<noteq> [] \<Longrightarrow> map (\<lambda>e. (fst e, f (snd e))) (lower_first key es) =
     lower_first key (map (\<lambda>e. (fst e, f (snd e))) es)"
  by (cases es) (auto simp: lower_first_def)

lemma lower_first_snd [simp]: "es \<noteq> [] \<Longrightarrow> map snd (lower_first key es) = map snd es"
  by (cases es) (auto simp: lower_first_def)

lemma lower_first_nth_snd: "i < length es \<Longrightarrow> snd (lower_first key es ! i) = snd (es ! i)"
  by (cases es; cases i) (auto simp: lower_first_def)

lemma lower_first_nth_fst: "0 < i \<Longrightarrow> i < length es \<Longrightarrow> fst (lower_first key es ! i) = fst (es ! i)"
  by (cases es; cases i) (auto simp: lower_first_def)

section \<open>Trees as values: order and lookup\<close>

lemma atree_induct [case_names ALeaf ANode]:
  assumes "\<And>p xs. P (ALeaf p xs)"
    and "\<And>p es. (\<And>e. e \<in> set es \<Longrightarrow> P (snd e)) \<Longrightarrow> P (ANode p es)"
  shows "P t"
proof (induction t)
  case (ALeaf p xs)
  show ?case by (rule assms(1))
next
  case (ANode p es)
  show ?case
  proof (rule assms(2))
    fix e assume "e \<in> set es"
    moreover have "snd e \<in> Basic_BNFs.snds e" by (cases e) simp
    ultimately show "P (snd e)" by (rule ANode)
  qed
qed

lemma wf_t_node: "wf_t (ANode p es) \<longleftrightarrow> es \<noteq> [] \<and> entries_ok es"
  by (simp add: entries_ok_def ent_rel_def[abs_def])

declare wf_t.simps(2) [simp del]

lemma entries_ok_Nil [simp]: "entries_ok []"
  by (simp add: entries_ok_def)

lemma entries_ok_append:
  "entries_ok (A @ B) \<longleftrightarrow> entries_ok A \<and> entries_ok B \<and> (\<forall>a\<in>set A. \<forall>b\<in>set B. ent_rel a b)"
  by (auto simp: entries_ok_def sorted_wrt_append)

lemma entries_ok_Cons:
  "entries_ok (e # B) \<longleftrightarrow>
     wf_t (snd e) \<and> (\<forall>x\<in>allkeys (snd e). fst e \<le> x) \<and> entries_ok B \<and> (\<forall>b\<in>set B. ent_rel e b)"
  by (auto simp: entries_ok_def)

lemma entries_ok_take: "entries_ok es \<Longrightarrow> entries_ok (take n es)"
  by (metis append_take_drop_id entries_ok_append)

lemma entries_ok_drop: "entries_ok es \<Longrightarrow> entries_ok (drop n es)"
  by (metis append_take_drop_id entries_ok_append)

lemma ent_rel_trans_key: "ent_rel a b \<Longrightarrow> fst a < fst b"
  by (simp add: ent_rel_def)


text \<open>The key of slot 0 is a lower bound of all keys of a tree.\<close>

lemma entries_ok_lb:
  assumes "entries_ok (e # B)"
  shows "\<forall>b\<in>set (e # B). fst e \<le> fst b \<and> (\<forall>x\<in>allkeys (snd b). fst e \<le> x)"
proof
  fix b assume b: "b \<in> set (e # B)"
  show "fst e \<le> fst b \<and> (\<forall>x\<in>allkeys (snd b). fst e \<le> x)"
  proof (cases "b = e")
    case True
    with assms show ?thesis by (simp add: entries_ok_Cons)
  next
    case False
    with b have bB: "b \<in> set B" by simp
    with assms have r: "ent_rel e b" and lb: "\<forall>x\<in>allkeys (snd b). fst b \<le> x"
      by (auto simp: entries_ok_Cons entries_ok_def)
    from r have "fst e < fst b" by (simp add: ent_rel_def)
    with lb show ?thesis by fastforce
  qed
qed

lemma wf_root_first_lb:
  assumes "wf_t t"
  shows "\<forall>x\<in>allkeys t. root_first t \<le> x"
proof (cases t)
  case (ALeaf p xs)
  show ?thesis
  proof (cases xs)
    case Nil
    with ALeaf show ?thesis by simp
  next
    case (Cons a ys)
    with assms ALeaf have "\<forall>y\<in>set ys. fst a < fst y" by simp
    with ALeaf Cons show ?thesis by (auto simp: root_first_def intro: less_imp_le)
  qed
next
  case (ANode p es)
  with assms obtain e B where es: "es = e # B" and ok: "entries_ok (e # B)"
    by (cases es) (auto simp: wf_t_node)
  from entries_ok_lb[OF ok] show ?thesis
    unfolding ANode es by (auto simp: root_first_def)
qed

lemma leaves_keys_subset: "fst ` set (leaves_of t) \<subseteq> allkeys t"
proof (induction t rule: atree_induct)
  case (ALeaf p xs)
  show ?case by simp
next
  case (ANode p es)
  show ?case
  proof
    fix x assume "x \<in> fst ` set (leaves_of (ANode p es))"
    then obtain e where e: "e \<in> set es" and x: "x \<in> fst ` set (leaves_of (snd e))" by auto
    from ANode[OF e] x have "x \<in> allkeys (snd e)" by blast
    with e show "x \<in> allkeys (ANode p es)" by auto
  qed
qed

lemma leaves_sorted: "wf_t t \<Longrightarrow> sorted_wrt (<) (map fst (leaves_of t))"
proof (induction t rule: atree_induct)
  case (ALeaf p xs)
  then show ?case by simp
next
  case (ANode p es)
  then have ok: "entries_ok es" by (simp add: wf_t_node)
  have "entries_ok es \<Longrightarrow> (\<And>e. e \<in> set es \<Longrightarrow> wf_t (snd e) \<Longrightarrow> sorted_wrt (<) (map fst (leaves_of (snd e))))
     \<Longrightarrow> sorted_wrt (<) (map fst (concat (map (\<lambda>e. leaves_of (snd e)) es)))"
  proof (induction es)
    case Nil
    then show ?case by simp
  next
    case (Cons e B)
    have 1: "sorted_wrt (<) (map fst (leaves_of (snd e)))"
      using Cons.prems by (simp add: entries_ok_Cons)
    have 2: "sorted_wrt (<) (map fst (concat (map (\<lambda>e. leaves_of (snd e)) B)))"
      using Cons by (simp add: entries_ok_Cons)
    have 3: "\<forall>x\<in>set (leaves_of (snd e)). \<forall>b\<in>set B. \<forall>y\<in>set (leaves_of (snd b)). fst x < fst y"
    proof (intro ballI)
      fix x b y assume x: "x \<in> set (leaves_of (snd e))" and b: "b \<in> set B" and y: "y \<in> set (leaves_of (snd b))"
      have "fst x \<in> allkeys (snd e)" using x leaves_keys_subset by fastforce
      moreover have "ent_rel e b" using Cons.prems(1) b by (simp add: entries_ok_Cons)
      ultimately have "fst x < fst b" by (simp add: ent_rel_def)
      moreover have "fst y \<in> allkeys (snd b)" using y leaves_keys_subset by fastforce
      moreover have "\<forall>z\<in>allkeys (snd b). fst b \<le> z"
        using Cons.prems(1) b by (simp add: entries_ok_Cons entries_ok_def)
      ultimately show "fst x < fst y" by fastforce
    qed
    show ?case using 1 2 3 by (auto simp: sorted_wrt_append)
  qed
  from this[OF ok] ANode.IH ok show ?case by (simp add: entries_ok_def)
qed

section \<open>Insertion on trees as values\<close>

lemma lower_first_entries_ok:
  assumes "entries_ok es" "es \<noteq> []"
  shows "entries_ok (lower_first key es)"
proof (cases es)
  case Nil
  with assms show ?thesis by simp
next
  case (Cons e B)
  show ?thesis
  proof (cases "key < fst e")
    case True
    have "entries_ok ((key, snd e) # B)"
      using assms(1) True unfolding Cons entries_ok_Cons ent_rel_def by fastforce
    then show ?thesis using True Cons by (simp add: lower_first_def)
  next
    case False
    then show ?thesis using assms Cons by (simp add: lower_first_def)
  qed
qed

lemma lower_first_keys: "es \<noteq> [] \<Longrightarrow> fst ` set (lower_first key es) \<subseteq> insert key (fst ` set es)"
  by (cases es) (auto simp: lower_first_def)

lemma route:
  assumes "entries_ok es" "es \<noteq> []"
  shows "\<exists>i A k c B. child_index key es = Some i \<and> i = length A \<and> i < length es \<and> c = snd (es ! i) \<and>
       lower_first key es = A @ (k, c) # B \<and> k \<le> key \<and> (\<forall>b\<in>set B. key < fst b)"
proof -
  let ?es1 = "lower_first key es"
  from child_index_Some[OF assms(2), of key] obtain i where
    i: "child_index key es = Some i" "i < length es"
       "Suc i < length es \<longrightarrow> key < fst (es ! Suc i)"
       "\<forall>j. 0 < j \<and> j \<le> i \<longrightarrow> \<not> key < fst (es ! j)"
    by blast
  have len: "length ?es1 = length es" using assms(2) by simp
  define A where "A = take i ?es1"
  define B where "B = drop (Suc i) ?es1"
  define k where "k = fst (?es1 ! i)"
  have c: "snd (?es1 ! i) = snd (es ! i)" using i(2) by (rule lower_first_nth_snd)
  have "?es1 = take i ?es1 @ ?es1 ! i # drop (Suc i) ?es1"
    using i(2) len by (simp add: id_take_nth_drop[symmetric])
  also have "?es1 ! i = (k, snd (es ! i))" unfolding k_def c[symmetric] by simp
  finally have dec: "?es1 = A @ (k, snd (es ! i)) # B" unfolding A_def B_def .
  have lenA: "i = length A" using i(2) len by (simp add: A_def)
  have kle: "k \<le> key"
  proof (cases i)
    case 0
    then show ?thesis using assms(2) by (cases es) (auto simp: k_def lower_first_def)
  next
    case (Suc j)
    then have "k = fst (es ! i)" using i(2) by (simp add: k_def lower_first_nth_fst)
    moreover have "\<not> key < fst (es ! i)" using i(4) Suc by simp
    ultimately show ?thesis by simp
  qed
  have ok1: "entries_ok ?es1" using assms by (rule lower_first_entries_ok)
  have okB: "entries_ok B" unfolding B_def using ok1 by (rule entries_ok_drop)
  have B: "\<forall>b\<in>set B. key < fst b"
  proof (cases B)
    case Nil
    then show ?thesis by simp
  next
    case (Cons e' B')
    then have "drop (Suc i) ?es1 \<noteq> []" by (simp add: B_def)
    then have si: "Suc i < length es" using len by simp
    then have "hd B = ?es1 ! Suc i" using len by (simp add: B_def hd_drop_conv_nth)
    also have "fst \<dots> = fst (es ! Suc i)" using si by (simp add: lower_first_nth_fst)
    finally have "key < fst e'" using i(3) si Cons by simp
    moreover have "\<forall>b\<in>set B. fst e' \<le> fst b" using entries_ok_lb[of e' B'] okB Cons by simp
    ultimately show ?thesis by fastforce
  qed
  show ?thesis using i(1,2) lenA dec kle B by blast
qed

lemma entries_ok_replace:
  assumes "entries_ok (A @ (k, c) # B)" "wf_t c'" "allkeys c' \<subseteq> insert key (allkeys c)"
    "k \<le> key" "\<forall>b\<in>set B. key < fst b"
  shows "entries_ok (A @ (k, c') # B)"
proof -
  have 1: "\<forall>x\<in>allkeys c'. k \<le> x"
    using assms(1,3,4) by (auto simp: entries_ok_append entries_ok_Cons)
  have 2: "\<forall>b\<in>set B. ent_rel (k, c') b"
  proof
    fix b assume b: "b \<in> set B"
    then have r: "ent_rel (k, c) b" using assms(1) by (simp add: entries_ok_append entries_ok_Cons)
    have "key < fst b" using assms(5) b by simp
    with r assms(3) show "ent_rel (k, c') b" by (auto simp: ent_rel_def)
  qed
  have 3: "\<forall>a\<in>set A. \<forall>b\<in>set ((k, c') # B). ent_rel a b"
    using assms(1) by (auto simp: entries_ok_append ent_rel_def)
  show ?thesis using assms(1,2) 1 2 3 by (simp add: entries_ok_append entries_ok_Cons)
qed

lemma entries_ok_insert_split:
  assumes "entries_ok (A @ (k, c) # B)" "wf_t cl" "wf_t cr"
    "allkeys cl \<union> allkeys cr \<subseteq> insert key (allkeys c)"
    "\<forall>x\<in>allkeys cl. x < sk" "\<forall>x\<in>allkeys cr. sk \<le> x" "sk \<in> insert key (allkeys c)"
    "root_first cl \<in> allkeys cl" "k \<le> key" "\<forall>b\<in>set B. key < fst b"
  shows "entries_ok (A @ (k, cl) # (sk, cr) # B)"
    and "array_Insert sk cr (A @ (k, cl) # B) = A @ (k, cl) # (sk, cr) # B"
proof -
  have lbc: "\<forall>x\<in>allkeys c. k \<le> x"
    using assms(1) by (simp add: entries_ok_append entries_ok_Cons)
  have lb: "\<forall>x\<in>insert key (allkeys c). k \<le> x" using lbc assms(9) by simp
  have ub: "\<forall>b\<in>set B. \<forall>x\<in>insert key (allkeys c). x < fst b"
    using assms(1,10) by (simp add: entries_ok_append entries_ok_Cons ent_rel_def)
  have "k \<le> root_first cl" using lb assms(4,8) by blast
  moreover have "root_first cl < sk" using assms(5,8) by blast
  ultimately have ksk: "k < sk" by simp
  have 1: "\<forall>x\<in>allkeys cl. k \<le> x" using lb assms(4) by blast
  have 2: "ent_rel (k, cl) (sk, cr)" using ksk assms(5) by (simp add: ent_rel_def)
  have 3: "\<forall>b\<in>set B. ent_rel (k, cl) b"
  proof
    fix b assume b: "b \<in> set B"
    have "k < fst b" using b assms(1) by (simp add: entries_ok_append entries_ok_Cons ent_rel_def)
    moreover have "\<forall>x\<in>allkeys cl. x < fst b" using ub b assms(4) by blast
    ultimately show "ent_rel (k, cl) b" by (simp add: ent_rel_def)
  qed
  have 4: "\<forall>b\<in>set B. ent_rel (sk, cr) b"
  proof
    fix b assume b: "b \<in> set B"
    have "sk < fst b" using ub b assms(7) by blast
    moreover have "\<forall>x\<in>allkeys cr. x < fst b" using ub b assms(4) by blast
    ultimately show "ent_rel (sk, cr) b" by (simp add: ent_rel_def)
  qed
  have 5: "\<forall>a\<in>set A. ent_rel a (k, cl) \<and> ent_rel a (sk, cr) \<and> (\<forall>b\<in>set B. ent_rel a b)"
  proof
    fix a assume a: "a \<in> set A"
    have r: "ent_rel a (k, c)" "\<forall>b\<in>set B. ent_rel a b"
      using a assms(1) by (simp_all add: entries_ok_append)
    from r(1) ksk have "ent_rel a (k, cl)" "ent_rel a (sk, cr)" by (auto simp: ent_rel_def)
    with r(2) show "ent_rel a (k, cl) \<and> ent_rel a (sk, cr) \<and> (\<forall>b\<in>set B. ent_rel a b)" by simp
  qed
  have okA: "entries_ok A" and okB: "entries_ok B"
    using assms(1) by (simp_all add: entries_ok_append entries_ok_Cons)
  show "entries_ok (A @ (k, cl) # (sk, cr) # B)"
    using okA okB assms(2,3,6) 1 2 3 4 5 by (simp add: entries_ok_append entries_ok_Cons)
  have "array_Insert sk cr ((A @ [(k, cl)]) @ B) = (A @ [(k, cl)]) @ (sk, cr) # B"
  proof (rule array_Insert_place)
    show "A @ [(k, cl)] = [] \<or> fst (last (A @ [(k, cl)])) < sk" using ksk by simp
    show "\<forall>x\<in>set B. \<not> fst x < sk" using 4 by (fastforce simp: ent_rel_def)
  qed
  then show "array_Insert sk cr (A @ (k, cl) # B) = A @ (k, cl) # (sk, cr) # B" by simp
qed

lemma array_Split_parts:
  assumes "2 \<le> length es" "array_Split es = (L, R)"
  shows "L \<noteq> []" "R \<noteq> []" "L @ R = es" "hd L = hd es"
  using assms by (auto simp: array_Split_def split_offset_def)

lemma leaves_of_node: "leaves_of (ANode p es) = concat (map leaves_of (map snd es))"
  by (simp add: comp_def)

lemma allkeys_node: "allkeys (ANode p es) = fst ` set es \<union> (\<Union>c\<in>set (map snd es). allkeys c)"
  by auto

lemma node_split_ok:
  assumes "entries_ok es" "2 \<le> length es" "array_Split es = (L, R)"
  shows "wf_t (ANode p L)" "wf_t (ANode q R)" "root_first (ANode p L) \<in> allkeys (ANode p L)"
    "\<forall>x\<in>allkeys (ANode p L). x < fst (hd R)" "\<forall>x\<in>allkeys (ANode q R). fst (hd R) \<le> x"
    "fst (hd R) \<in> fst ` set es"
    "allkeys (ANode p L) \<union> allkeys (ANode q R) = allkeys (ANode p es)"
    "leaves_of (ANode p L) @ leaves_of (ANode q R) = leaves_of (ANode p es)"
proof -
  note sp = array_Split_parts[OF assms(2,3)]
  from sp(3) assms(1) have okL: "entries_ok L" and okR: "entries_ok R"
    and rel: "\<forall>a\<in>set L. \<forall>b\<in>set R. ent_rel a b"
    by (auto simp: entries_ok_append)
  show "wf_t (ANode p L)" using okL sp(1) by (simp add: wf_t_node)
  show "wf_t (ANode q R)" using okR sp(2) by (simp add: wf_t_node)
  show "root_first (ANode p L) \<in> allkeys (ANode p L)" using sp(1) by (simp add: root_first_def)
  have hR: "hd R \<in> set R" using sp(2) by simp
  show "\<forall>x\<in>allkeys (ANode p L). x < fst (hd R)"
  proof
    fix x assume "x \<in> allkeys (ANode p L)"
    then obtain a where a: "a \<in> set L" "x = fst a \<or> x \<in> allkeys (snd a)" by auto
    with rel hR have "ent_rel a (hd R)" by blast
    with a(2) show "x < fst (hd R)" by (auto simp: ent_rel_def)
  qed
  obtain e R' where R: "R = e # R'" using sp(2) by (cases R) auto
  from entries_ok_lb[of e R'] okR R
  show "\<forall>x\<in>allkeys (ANode q R). fst (hd R) \<le> x" by auto
  show "fst (hd R) \<in> fst ` set es" using hR sp(3) by auto
  show "allkeys (ANode p L) \<union> allkeys (ANode q R) = allkeys (ANode p es)"
    unfolding sp(3)[symmetric] by auto
  show "leaves_of (ANode p L) @ leaves_of (ANode q R) = leaves_of (ANode p es)"
    unfolding sp(3)[symmetric] by simp
qed

lemma leaf_split_ok:
  assumes "sorted_wrt (<) (map fst xs)" "2 \<le> length xs" "array_Split xs = (L, R)"
  shows "wf_t (ALeaf p L)" "wf_t (ALeaf q R)" "root_first (ALeaf p L) \<in> allkeys (ALeaf p L)"
    "\<forall>x\<in>allkeys (ALeaf p L). x < fst (hd R)" "\<forall>x\<in>allkeys (ALeaf q R). fst (hd R) \<le> x"
    "fst (hd R) \<in> fst ` set xs"
    "fst ` set L \<union> fst ` set R = fst ` set xs"
    "L @ R = xs"
proof -
  note sp = array_Split_parts[OF assms(2,3)]
  from assms(1) have s: "sorted_wrt (<) (map fst L)" "sorted_wrt (<) (map fst R)"
    "\<forall>a\<in>set L. \<forall>b\<in>set R. fst a < fst b"
    unfolding sp(3)[symmetric] by (auto simp: sorted_wrt_append)
  show "wf_t (ALeaf p L)" "wf_t (ALeaf q R)" using s by simp_all
  show "root_first (ALeaf p L) \<in> allkeys (ALeaf p L)" using sp(1) by (simp add: root_first_def)
  have hR: "hd R \<in> set R" using sp(2) by simp
  show "\<forall>x\<in>allkeys (ALeaf p L). x < fst (hd R)" using s(3) hR by auto
  obtain e R' where R: "R = e # R'" using sp(2) by (cases R) auto
  show "\<forall>x\<in>allkeys (ALeaf q R). fst (hd R) \<le> x" using s(2) unfolding R by (auto intro: less_imp_le)
  show "fst (hd R) \<in> fst ` set xs" using hR sp(3) by auto
  show "fst ` set L \<union> fst ` set R = fst ` set xs" unfolding sp(3)[symmetric] by auto
  show "L @ R = xs" by (rule sp(3))
qed

lemma ains_leaf_ok:
  assumes "wf_t (ALeaf p xs)" "2 \<le> lm"
  shows "ins_ok key v (ALeaf p xs) (ains lm im (ALeaf p xs) key v nxt)"
proof (cases "key \<in> fst ` set xs")
  case True
  then show ?thesis using assms by (auto simp: leaf_Insert_def)
next
  case False
  let ?xs' = "array_Insert key v xs"
  have s: "sorted_wrt (<) (map fst ?xs')" using assms(1) False by (simp add: array_Insert_sorted(1))
  show ?thesis
  proof (cases "length ?xs' < lm")
    case True
    then show ?thesis using False s by (auto simp: leaf_Insert_def)
  next
    case ge: False
    obtain L R where lr: "array_Split ?xs' = (L, R)" by (cases "array_Split ?xs'")
    have len: "2 \<le> length ?xs'" using ge assms(2) by simp
    note sp = leaf_split_ok[OF s len lr]
    have res: "ains lm im (ALeaf p xs) key v nxt = Over (ALeaf p L) (fst (hd R)) (ALeaf nxt R) (nxt + 1)"
      using False ge lr by (simp add: leaf_Insert_def)
    have sk: "fst (hd R) \<in> insert key (allkeys (ALeaf p xs))" using sp(6) by simp
    have ak: "allkeys (ALeaf p L) \<union> allkeys (ALeaf nxt R) \<subseteq> insert key (allkeys (ALeaf p xs))"
      using sp(7) by simp
    show ?thesis unfolding res ins_ok.simps
      using sp(1-5) sk ak sp(8) False by simp
  qed
qed

text \<open>The insertion below an internal page, with the slots before and after the slot
  of the descent.\<close>

lemma ains_node_shape:
  assumes wf: "wf_t (ANode p es)"
    and ch: "\<And>e. e \<in> set es \<Longrightarrow> ins_ok key v (snd e) (ains lm im (snd e) key v nxt)"
  shows "\<exists>A k c B. lower_first key es = A @ (k, c) # B \<and> (es ! length A) \<in> set es \<and> c = snd (es ! length A) \<and>
      child_index key es = Some (length A) \<and>
      map snd es = map snd A @ c # map snd B \<and> length es = length A + 1 + length B \<and>
      entries_ok (A @ (k, c) # B) \<and> k \<le> key \<and> (\<forall>b\<in>set B. key < fst b) \<and> wf_t c \<and>
      fst ` set (A @ (k, c) # B) \<subseteq> insert key (fst ` set es) \<and>
      ains lm im (ANode p es) key v nxt =
        (case ains lm im c key v nxt of
           Stay b c' n \<Rightarrow> Stay b (ANode p (A @ (k, c') # B)) n
         | Over cl sk cr n \<Rightarrow>
             if length es + 1 < im + 1 then Stay True (ANode p (A @ (k, cl) # (sk, cr) # B)) n
             else Over (ANode p (fst (array_Split (A @ (k, cl) # (sk, cr) # B))))
                    (fst (hd (snd (array_Split (A @ (k, cl) # (sk, cr) # B)))))
                    (ANode n (snd (array_Split (A @ (k, cl) # (sk, cr) # B)))) (n + 1))"
proof -
  from wf have ne: "es \<noteq> []" and ok: "entries_ok es" by (simp_all add: wf_t_node)
  from route[OF ok ne, of key] obtain i A k c B where
    r: "child_index key es = Some i" "i = length A" "i < length es" "c = snd (es ! i)"
       "lower_first key es = A @ (k, c) # B" "k \<le> key" "\<forall>b\<in>set B. key < fst b"
    by blast
  let ?es1 = "lower_first key es"
  have ok1: "entries_ok (A @ (k, c) # B)" using lower_first_entries_ok[OF ok ne, of key] r(5) by simp
  have ei: "es ! i \<in> set es" using r(3) by simp
  have wfc: "wf_t c" using ok ei r(4) by (simp add: entries_ok_def)
  have nth: "map (\<lambda>e. ains lm im (snd e) key v nxt) es ! i = ains lm im c key v nxt"
    using r(3,4) by simp
  have e1i: "?es1 ! i = (k, c)" unfolding r(5) r(2) by simp
  have upd: "\<And>x. ?es1[i := x] = A @ x # B" unfolding r(5) r(2) by simp
  have snds: "map snd es = map snd A @ c # map snd B"
    using lower_first_snd[OF ne, of key] unfolding r(5) by simp
  have len: "length es = length A + 1 + length B"
    using lower_first_length[OF ne, of key] unfolding r(5) by simp
  have keys: "fst ` set (A @ (k, c) # B) \<subseteq> insert key (fst ` set es)"
    using lower_first_keys[OF ne, of key] unfolding r(5) .
  have res: "ains lm im (ANode p es) key v nxt =
        (case ains lm im c key v nxt of
           Stay b c' n \<Rightarrow> Stay b (ANode p (A @ (k, c') # B)) n
         | Over cl sk cr n \<Rightarrow>
             if length es + 1 < im + 1 then Stay True (ANode p (A @ (k, cl) # (sk, cr) # B)) n
             else Over (ANode p (fst (array_Split (A @ (k, cl) # (sk, cr) # B))))
                    (fst (hd (snd (array_Split (A @ (k, cl) # (sk, cr) # B)))))
                    (ANode n (snd (array_Split (A @ (k, cl) # (sk, cr) # B)))) (n + 1))"
  proof (cases "ains lm im c key v nxt")
    case (Stay b c' n)
    then show ?thesis using r(1) nth e1i upd by (simp add: Let_def)
  next
    case (Over cl sk cr n)
    from ch[OF ei] Over r(4) have h: "ins_ok key v c (Over cl sk cr n)" by simp
    have ins: "array_Insert sk cr (A @ (k, cl) # B) = A @ (k, cl) # (sk, cr) # B"
      using h by (intro entries_ok_insert_split(2)[OF ok1, where key = key]) (simp_all add: r(6,7))
    have l2: "length (A @ (k, cl) # (sk, cr) # B) = length es + 1" using len by simp
    show ?thesis using r(1) nth e1i upd Over ins l2 ne by (simp add: Let_def del: length_append)
  qed
  show ?thesis using r(5) ei r(4) r(1) snds len ok1 r(6,7) wfc keys res unfolding r(2) by blast
qed

lemma route_leaves:
  assumes "entries_ok (A @ (k, c) # B)" "k \<le> key" "\<forall>b\<in>set B. key < fst b"
  shows "\<forall>x\<in>set (concat (map (\<lambda>e. leaves_of (snd e)) A)). fst x < key"
    and "\<forall>x\<in>set (concat (map (\<lambda>e. leaves_of (snd e)) B)). key < fst x"
proof -
  show "\<forall>x\<in>set (concat (map (\<lambda>e. leaves_of (snd e)) A)). fst x < key"
  proof
    fix x assume "x \<in> set (concat (map (\<lambda>e. leaves_of (snd e)) A))"
    then obtain a where a: "a \<in> set A" "x \<in> set (leaves_of (snd a))" by auto
    have "fst x \<in> allkeys (snd a)" using a(2) leaves_keys_subset by fastforce
    moreover have "ent_rel a (k, c)" using assms(1) a(1) by (simp add: entries_ok_append)
    ultimately have "fst x < k" by (simp add: ent_rel_def)
    with assms(2) show "fst x < key" by simp
  qed
  show "\<forall>x\<in>set (concat (map (\<lambda>e. leaves_of (snd e)) B)). key < fst x"
  proof
    fix x assume "x \<in> set (concat (map (\<lambda>e. leaves_of (snd e)) B))"
    then obtain b where b: "b \<in> set B" "x \<in> set (leaves_of (snd b))" by auto
    have "fst x \<in> allkeys (snd b)" using b(2) leaves_keys_subset by fastforce
    moreover have "\<forall>y\<in>allkeys (snd b). fst b \<le> y"
      using assms(1) b(1) by (simp add: entries_ok_append entries_ok_Cons entries_ok_def)
    ultimately have "fst b \<le> fst x" by simp
    moreover have "key < fst b" using assms(3) b(1) by simp
    ultimately show "key < fst x" by simp
  qed
qed

lemma node_leaves:
  assumes "entries_ok (A @ (k, c) # B)" "k \<le> key" "\<forall>b\<in>set B. key < fst b"
    and "map snd es = map snd A @ c # map snd B"
  shows "leaves_of (ANode p es) =
      concat (map (\<lambda>e. leaves_of (snd e)) A) @ leaves_of c @ concat (map (\<lambda>e. leaves_of (snd e)) B)"
    and "key \<in> fst ` set (leaves_of (ANode p es)) \<longleftrightarrow> key \<in> fst ` set (leaves_of c)"
    and "array_Insert key v (leaves_of (ANode p es)) =
      concat (map (\<lambda>e. leaves_of (snd e)) A) @ array_Insert key v (leaves_of c) @
      concat (map (\<lambda>e. leaves_of (snd e)) B)"
    and "map_of (leaves_of (ANode p es)) key = map_of (leaves_of c) key"
proof -
  let ?LA = "concat (map (\<lambda>e. leaves_of (snd e)) A)"
  let ?LB = "concat (map (\<lambda>e. leaves_of (snd e)) B)"
  note rl = route_leaves[OF assms(1-3)]
  show lv: "leaves_of (ANode p es) = ?LA @ leaves_of c @ ?LB"
    unfolding leaves_of_node assms(4) by (simp add: comp_def)
  have nA: "key \<notin> fst ` set ?LA" using rl(1) by fastforce
  have nB: "key \<notin> fst ` set ?LB" using rl(2) by fastforce
  show "key \<in> fst ` set (leaves_of (ANode p es)) \<longleftrightarrow> key \<in> fst ` set (leaves_of c)"
    unfolding lv using nA nB by (simp add: image_Un)
  have "array_Insert key v (?LA @ leaves_of c @ ?LB) = ?LA @ array_Insert key v (leaves_of c) @ ?LB"
  proof (rule array_Insert_mid)
    show "?LA = [] \<or> fst (last ?LA) < key"
    proof (cases "?LA = []")
      case True
      then show ?thesis by simp
    next
      case False
      then have "last ?LA \<in> set ?LA" by (rule last_in_set)
      with rl(1) show ?thesis by blast
    qed
    show "\<forall>x\<in>set ?LB. \<not> fst x < key" using rl(2) by fastforce
  qed
  then show "array_Insert key v (leaves_of (ANode p es)) = ?LA @ array_Insert key v (leaves_of c) @ ?LB"
    unfolding lv .
  have "map_of ?LA key = None" using nA by (simp add: map_of_eq_None_iff)
  moreover have "map_of ?LB key = None" using nB by (simp add: map_of_eq_None_iff)
  ultimately show "map_of (leaves_of (ANode p es)) key = map_of (leaves_of c) key"
    unfolding lv by (simp add: map_add_def split: option.splits)
qed

lemma node_allkeys_sub:
  assumes "fst ` set (A @ (k, c) # B) \<subseteq> insert key (fst ` set es)"
    and "map snd es = map snd A @ c # map snd B"
    and "fst ` set M \<subseteq> insert key (allkeys c) \<union> {k}" 
    and "\<forall>m\<in>set M. allkeys (snd m) \<subseteq> insert key (allkeys c)"
  shows "allkeys (ANode p (A @ M @ B)) \<subseteq> insert key (allkeys (ANode p es))"
proof
  fix x assume "x \<in> allkeys (ANode p (A @ M @ B))"
  then have "x \<in> fst ` set A \<union> fst ` set B \<or> x \<in> fst ` set M \<or>
      (\<exists>e\<in>set A \<union> set B. x \<in> allkeys (snd e)) \<or> (\<exists>m\<in>set M. x \<in> allkeys (snd m))"
    by auto
  then consider (k) "x \<in> fst ` set A \<union> fst ` set B" | (m) "x \<in> fst ` set M"
    | (c) e where "e \<in> set A \<union> set B" "x \<in> allkeys (snd e)"
    | (cm) m where "m \<in> set M" "x \<in> allkeys (snd m)"
    by blast
  then show "x \<in> insert key (allkeys (ANode p es))"
  proof cases
    case k
    then have "x \<in> insert key (fst ` set es)" using assms(1) by auto
    then show ?thesis by auto
  next
    case m
    have cin: "c \<in> set (map snd es)" unfolding assms(2) by simp
    have "k \<in> insert key (fst ` set es)" using assms(1) by simp
    moreover from m assms(3) have "x = key \<or> x \<in> allkeys c \<or> x = k" by auto
    ultimately show ?thesis using cin unfolding allkeys_node by blast
  next
    case c
    then have "snd e \<in> set (map snd es)" unfolding assms(2) by auto
    with c(2) show ?thesis unfolding allkeys_node by blast
  next
    case cm
    have cin: "c \<in> set (map snd es)" unfolding assms(2) by simp
    from cm assms(4) have "x = key \<or> x \<in> allkeys c" by auto
    with cin show ?thesis unfolding allkeys_node by blast
  qed
qed

lemma ains_ok:
  assumes "wf_t t" "2 \<le> lm" "1 \<le> im"
  shows "ins_ok key v t (ains lm im t key v nxt)"
  using assms(1)
proof (induction t arbitrary: nxt rule: atree_induct)
  case (ALeaf p xs)
  then show ?case using assms(2) by (intro ains_leaf_ok)
next
  case (ANode p es)
  have ch: "\<And>e. e \<in> set es \<Longrightarrow> ins_ok key v (snd e) (ains lm im (snd e) key v nxt)"
  proof -
    fix e assume e: "e \<in> set es"
    then have "wf_t (snd e)" using ANode.prems by (simp add: wf_t_node entries_ok_def)
    then show "ins_ok key v (snd e) (ains lm im (snd e) key v nxt)" by (rule ANode.IH[OF e])
  qed
  from ains_node_shape[OF ANode.prems ch] obtain A k c B where
    ei: "es ! length A \<in> set es" and c: "c = snd (es ! length A)"
    and snds: "map snd es = map snd A @ c # map snd B"
    and len: "length es = length A + 1 + length B"
    and ok1: "entries_ok (A @ (k, c) # B)" and kle: "k \<le> key" and kB: "\<forall>b\<in>set B. key < fst b"
    and keys: "fst ` set (A @ (k, c) # B) \<subseteq> insert key (fst ` set es)"
    and res: "ains lm im (ANode p es) key v nxt =
        (case ains lm im c key v nxt of
           Stay b c' n \<Rightarrow> Stay b (ANode p (A @ (k, c') # B)) n
         | Over cl sk cr n \<Rightarrow>
             if length es + 1 < im + 1 then Stay True (ANode p (A @ (k, cl) # (sk, cr) # B)) n
             else Over (ANode p (fst (array_Split (A @ (k, cl) # (sk, cr) # B))))
                    (fst (hd (snd (array_Split (A @ (k, cl) # (sk, cr) # B)))))
                    (ANode n (snd (array_Split (A @ (k, cl) # (sk, cr) # B)))) (n + 1))"
    by blast
  have hc: "ins_ok key v c (ains lm im c key v nxt)" using ch[OF ei] c by simp
  note nl = node_leaves[OF ok1 kle kB snds, where p = p]
  let ?LA = "concat (map (\<lambda>e. leaves_of (snd e)) A)"
  let ?LB = "concat (map (\<lambda>e. leaves_of (snd e)) B)"
  show ?case
  proof (cases "ains lm im c key v nxt")
    case (Stay b c' n)
    with hc have h: "wf_t c'" "apid c' = apid c" "allkeys c' \<subseteq> insert key (allkeys c)"
      "b \<longleftrightarrow> key \<notin> fst ` set (leaves_of c)"
      "leaves_of c' = (if b then array_Insert key v (leaves_of c) else leaves_of c)"
      by simp_all
    have r: "ains lm im (ANode p es) key v nxt = Stay b (ANode p (A @ (k, c') # B)) n"
      using res Stay by simp
    have 1: "wf_t (ANode p (A @ (k, c') # B))"
      using entries_ok_replace[OF ok1 h(1) h(3) kle kB] by (simp add: wf_t_node)
    have 2: "allkeys (ANode p (A @ (k, c') # B)) \<subseteq> insert key (allkeys (ANode p es))"
      using node_allkeys_sub[OF keys snds, of "[(k, c')]" p] h(3) by simp
    have 3: "b \<longleftrightarrow> key \<notin> fst ` set (leaves_of (ANode p es))" using h(4) nl(2) by simp
    have "leaves_of (ANode p (A @ (k, c') # B)) = ?LA @ leaves_of c' @ ?LB" by simp
    also have "\<dots> = (if b then array_Insert key v (leaves_of (ANode p es)) else leaves_of (ANode p es))"
    proof (cases b)
      case True
      then have "?LA @ leaves_of c' @ ?LB = ?LA @ array_Insert key v (leaves_of c) @ ?LB"
        using h(5) by simp
      also have "\<dots> = array_Insert key v (leaves_of (ANode p es))" by (rule nl(3)[symmetric])
      finally show ?thesis using True by simp
    next
      case False
      then have "?LA @ leaves_of c' @ ?LB = ?LA @ leaves_of c @ ?LB" using h(5) by simp
      also have "\<dots> = leaves_of (ANode p es)" by (rule nl(1)[symmetric])
      finally show ?thesis using False by simp
    qed
    finally have 4: "leaves_of (ANode p (A @ (k, c') # B)) =
        (if b then array_Insert key v (leaves_of (ANode p es)) else leaves_of (ANode p es))" .
    show ?thesis unfolding r ins_ok.simps using 1 2 3 4 by (simp only: apid.simps simp_thms)
  next
    case (Over cl sk cr n)
    with hc have h: "wf_t cl" "wf_t cr" "apid cl = apid c" "root_first cl \<in> allkeys cl"
      "\<forall>x\<in>allkeys cl. x < sk" "\<forall>x\<in>allkeys cr. sk \<le> x" "sk \<in> insert key (allkeys c)"
      "allkeys cl \<union> allkeys cr \<subseteq> insert key (allkeys c)"
      "key \<notin> fst ` set (leaves_of c)"
      "leaves_of cl @ leaves_of cr = array_Insert key v (leaves_of c)"
      by simp_all
    let ?es2 = "A @ (k, cl) # (sk, cr) # B"
    have ok2: "entries_ok ?es2"
      by (rule entries_ok_insert_split(1)[OF ok1 h(1) h(2) h(8) h(5) h(6) h(7) h(4) kle kB])
    have ak2: "allkeys (ANode p ?es2) \<subseteq> insert key (allkeys (ANode p es))"
      using node_allkeys_sub[OF keys snds, of "[(k, cl), (sk, cr)]" p] h(7,8) by simp
    have nk: "key \<notin> fst ` set (leaves_of (ANode p es))" using h(9) nl(2) by simp
    have "leaves_of (ANode p ?es2) = ?LA @ (leaves_of cl @ leaves_of cr) @ ?LB" by simp
    also have "\<dots> = ?LA @ array_Insert key v (leaves_of c) @ ?LB" unfolding h(10) by simp
    also have "\<dots> = array_Insert key v (leaves_of (ANode p es))" by (rule nl(3)[symmetric])
    finally have lv2: "leaves_of (ANode p ?es2) = array_Insert key v (leaves_of (ANode p es))" .
    show ?thesis
    proof (cases "length es + 1 < im + 1")
      case True
      have r: "ains lm im (ANode p es) key v nxt = Stay True (ANode p ?es2) n"
        using res Over True by simp
      have 1: "wf_t (ANode p ?es2)" using ok2 by (simp add: wf_t_node)
      show ?thesis unfolding r ins_ok.simps using 1 ak2 nk lv2 by (simp only: apid.simps simp_thms if_True)
    next
      case False
      obtain L R where lr: "array_Split ?es2 = (L, R)" by (cases "array_Split ?es2")
      have l2: "2 \<le> length ?es2" by simp
      note sp = node_split_ok[OF ok2 l2 lr]
      have r: "ains lm im (ANode p es) key v nxt = Over (ANode p L) (fst (hd R)) (ANode n R) (n + 1)"
        using res Over False lr by simp
      have sk': "fst (hd R) \<in> insert key (allkeys (ANode p es))"
        using sp(6) ak2 by auto
      have ak: "allkeys (ANode p L) \<union> allkeys (ANode n R) \<subseteq> insert key (allkeys (ANode p es))"
        using sp(7)[of p n] ak2 by simp
      have lv: "leaves_of (ANode p L) @ leaves_of (ANode n R) = array_Insert key v (leaves_of (ANode p es))"
        using sp(8)[of p n] lv2 by simp
      show ?thesis unfolding r ins_ok.simps
        using sp(1)[of p] sp(2)[of n] sp(3)[of p] sp(4)[of p] sp(5)[of n] sk' ak nk lv
        by (simp only: apid.simps simp_thms)
    qed
  qed
qed

lemma pids_node: "pids (ANode p es) = p # concat (map pids (map snd es))"
  by (simp add: comp_def)

lemma apid_in_pids [simp]: "apid t \<in> set (pids t)"
  by (cases t) simp_all

lemma distinct_mid_replace:
  assumes "distinct (p # PA @ C @ PB)" "\<forall>q\<in>set (p # PA @ C @ PB). q < (nxt::int)"
    "distinct M" "set M \<subseteq> set C \<union> {nxt..<n}"
  shows "distinct (p # PA @ M @ PB)" "set (p # PA @ M @ PB) \<subseteq> set (p # PA @ C @ PB) \<union> {nxt..<n}"
proof -
  have fresh: "\<forall>q\<in>set (p # PA @ PB). q \<notin> set M"
  proof
    fix q assume q: "q \<in> set (p # PA @ PB)"
    then have "q < nxt" using assms(2) by auto
    moreover have "q \<notin> set C" using q assms(1) by auto
    ultimately show "q \<notin> set M" using assms(4) by auto
  qed
  show "distinct (p # PA @ M @ PB)" using assms(1,3) fresh by auto
  show "set (p # PA @ M @ PB) \<subseteq> set (p # PA @ C @ PB) \<union> {nxt..<n}" using assms(4) by auto
qed

lemma ains_pids:
  assumes "wf_t t" "2 \<le> lm" "1 \<le> im" "distinct (pids t)" "\<forall>q\<in>set (pids t). q < nxt"
  shows "ins_pids nxt t (ains lm im t key v nxt)"
  using assms(1,4,5)
proof (induction t rule: atree_induct)
  case (ALeaf p xs)
  then have "p < nxt" by simp
  then show ?case by (auto simp: leaf_Insert_def)
next
  case (ANode p es)
  have ch: "\<And>e. e \<in> set es \<Longrightarrow> ins_ok key v (snd e) (ains lm im (snd e) key v nxt)"
  proof -
    fix e assume e: "e \<in> set es"
    then have "wf_t (snd e)" using ANode.prems(1) by (simp add: wf_t_node entries_ok_def)
    then show "ins_ok key v (snd e) (ains lm im (snd e) key v nxt)" using assms(2,3) by (rule ains_ok)
  qed
  from ains_node_shape[OF ANode.prems(1) ch] obtain A k c B where
    ei: "es ! length A \<in> set es" and c: "c = snd (es ! length A)"
    and snds: "map snd es = map snd A @ c # map snd B"
    and wfc: "wf_t c"
    and res: "ains lm im (ANode p es) key v nxt =
        (case ains lm im c key v nxt of
           Stay b c' n \<Rightarrow> Stay b (ANode p (A @ (k, c') # B)) n
         | Over cl sk cr n \<Rightarrow>
             if length es + 1 < im + 1 then Stay True (ANode p (A @ (k, cl) # (sk, cr) # B)) n
             else Over (ANode p (fst (array_Split (A @ (k, cl) # (sk, cr) # B))))
                    (fst (hd (snd (array_Split (A @ (k, cl) # (sk, cr) # B)))))
                    (ANode n (snd (array_Split (A @ (k, cl) # (sk, cr) # B)))) (n + 1))"
    by blast
  let ?PA = "concat (map (\<lambda>e. pids (snd e)) A)"
  let ?PB = "concat (map (\<lambda>e. pids (snd e)) B)"
  have pt: "pids (ANode p es) = p # ?PA @ pids c @ ?PB"
    unfolding pids_node snds by (simp add: comp_def)
  have d: "distinct (p # ?PA @ pids c @ ?PB)" using ANode.prems(2) unfolding pt .
  have lt: "\<forall>q\<in>set (p # ?PA @ pids c @ ?PB). q < nxt" using ANode.prems(3) unfolding pt .
  have dc: "distinct (pids c)" using d by simp
  have ltc: "\<forall>q\<in>set (pids c). q < nxt" using lt by simp
  have hc: "ins_pids nxt c (ains lm im c key v nxt)"
    using ANode.IH[OF ei] wfc dc ltc unfolding c[symmetric] by simp
  show ?case
  proof (cases "ains lm im c key v nxt")
    case (Stay b c' n)
    with hc have h: "nxt \<le> n" "distinct (pids c')" "set (pids c') \<subseteq> set (pids c) \<union> {nxt..<n}"
      by simp_all
    have r: "ains lm im (ANode p es) key v nxt = Stay b (ANode p (A @ (k, c') # B)) n"
      using res Stay by simp
    have p': "pids (ANode p (A @ (k, c') # B)) = p # ?PA @ pids c' @ ?PB" by simp
    note dm = distinct_mid_replace[OF d lt h(2) h(3)]
    show ?thesis unfolding r ins_pids.simps p' pt using h(1) dm by simp
  next
    case (Over cl sk cr n)
    with hc have h: "nxt < n" "distinct (pids cl @ pids cr)" "apid cr \<in> {nxt..<n}"
      "set (pids cl) \<union> set (pids cr) \<subseteq> set (pids c) \<union> {nxt..<n}"
      by simp_all
    let ?es2 = "A @ (k, cl) # (sk, cr) # B"
    have p2: "pids (ANode p ?es2) = p # ?PA @ (pids cl @ pids cr) @ ?PB" by simp
    have h4: "set (pids cl @ pids cr) \<subseteq> set (pids c) \<union> {nxt..<n}" using h(4) by simp
    note dm = distinct_mid_replace[OF d lt h(2) h4]
    show ?thesis
    proof (cases "length es + 1 < im + 1")
      case True
      have r: "ains lm im (ANode p es) key v nxt = Stay True (ANode p ?es2) n"
        using res Over True by simp
      show ?thesis unfolding r ins_pids.simps p2 pt using h(1) dm by simp
    next
      case False
      obtain L R where lr: "array_Split ?es2 = (L, R)" by (cases "array_Split ?es2")
      have l2: "2 \<le> length ?es2" by simp
      note sp = array_Split_parts[OF l2 lr]
      have r: "ains lm im (ANode p es) key v nxt = Over (ANode p L) (fst (hd R)) (ANode n R) (n + 1)"
        using res Over False lr by simp
      let ?XL = "concat (map (\<lambda>e. pids (snd e)) L)"
      let ?XR = "concat (map (\<lambda>e. pids (snd e)) R)"
      have "?XL @ ?XR = concat (map (\<lambda>e. pids (snd e)) (L @ R))" by simp
      also have "\<dots> = ?PA @ (pids cl @ pids cr) @ ?PB" unfolding sp(3) by simp
      finally have x: "?XL @ ?XR = ?PA @ (pids cl @ pids cr) @ ?PB" .
      have dx: "distinct (p # ?XL @ ?XR)" and sx: "set (p # ?XL @ ?XR) \<subseteq> set (p # ?PA @ pids c @ ?PB) \<union> {nxt..<n}"
        using dm unfolding x by simp_all
      have nn: "n \<notin> set (p # ?XL @ ?XR)"
      proof
        assume "n \<in> set (p # ?XL @ ?XR)"
        with sx have "n \<in> set (p # ?PA @ pids c @ ?PB) \<union> {nxt..<n}" by blast
        then have "n \<in> set (p # ?PA @ pids c @ ?PB)" by simp
        with lt have "n < nxt" by blast
        with h(1) show False by simp
      qed
      have 1: "distinct (pids (ANode p L) @ pids (ANode n R))"
        using dx nn by auto
      have 2: "set (pids (ANode p L)) \<union> set (pids (ANode n R)) \<subseteq> set (pids (ANode p es)) \<union> {nxt..<n + 1}"
      proof -
        have "set (pids (ANode p L)) \<union> set (pids (ANode n R)) = insert n (set (p # ?XL @ ?XR))" by auto
        also have "\<dots> \<subseteq> insert n (set (p # ?PA @ pids c @ ?PB) \<union> {nxt..<n})" using sx by blast
        also have "\<dots> \<subseteq> set (pids (ANode p es)) \<union> {nxt..<n + 1}" unfolding pt using h(1) by auto
        finally show ?thesis .
      qed
      show ?thesis unfolding r ins_pids.simps using h(1) 1 2 by (simp only: apid.simps) simp
    qed
  qed
qed

section \<open>The code of Insert, step by step\<close>

lemma rep_frame:
  assumes "rep pg lm im t" "\<forall>q\<in>set (pids t). pg' q = pg q"
  shows "rep pg' lm im t"
  using assms
proof (induction t rule: atree_induct)
  case (ALeaf p xs)
  then show ?case by simp
next
  case (ANode p es)
  have "\<forall>e\<in>set es. rep pg' lm im (snd e)"
  proof
    fix e assume e: "e \<in> set es"
    then have "rep pg lm im (snd e)" using ANode.prems(1) by simp
    moreover have "\<forall>q\<in>set (pids (snd e)). pg' q = pg q" using ANode.prems(2) e by auto
    ultimately show "rep pg' lm im (snd e)" by (rule ANode.IH[OF e])
  qed
  then show ?case using ANode.prems by simp
qed

lemma insert_at_leaf:
  assumes "bt_pages T p = Some (Leaf l)" "p \<noteq> INVALID_PAGE_ID"
  shows "insert_at key v (T, ctx) p =
     (case leaf_Insert key v (l_array l) of
        None \<Rightarrow> Some (T, False)
      | Some arr \<Rightarrow>
          do { t2 \<leftarrow> Split (T\<lparr>bt_pages := (bt_pages T)(p \<mapsto> Leaf (l\<lparr>l_array := arr\<rparr>))\<rparr>)
                         (ctx\<lparr>write_set := p # write_set ctx\<rparr>);
               Some (t2, True) })"
  using assms by (simp add: insert_at_def FindLeafMut_loop.simps[of key False "(T, ctx)" p])

lemma insert_at_node:
  assumes "bt_pages T p = Some (Internal n)" "p \<noteq> INVALID_PAGE_ID"
    "child_index key (i_array n) = Some i"
  shows "insert_at key v (T, ctx) p =
     insert_at key v
       (T\<lparr>bt_pages := (bt_pages T)(p \<mapsto> Internal (n\<lparr>i_array := lower_first key (i_array n)\<rparr>))\<rparr>,
        if length (i_array n) + 1 < i_max_size n
        then ctx\<lparr>header_held := False, write_set := [p]\<rparr>
        else ctx\<lparr>write_set := p # write_set ctx\<rparr>)
       (snd (i_array n ! i))"
  using assms
  by (simp add: insert_at_def FindLeafMut_loop.simps[of key False "(T, ctx)" p] Let_def
      release_ancestors_def)

lemma Split_leaf:
  assumes "bt_pages T p = Some (Leaf l)" "write_set ctx = p # ws"
  shows "Split T ctx =
     (if length (l_array l) < l_max_size l then Some T
      else do {
        (t1, sk, sp) \<leftarrow> SplitLeaf T p;
        lk \<leftarrow> first_key (fst (array_Split (l_array l)));
        finish_split t1 ws (header_held ctx) lk p sk sp })"
  using assms by (simp add: Split_def finish_split_def)

lemma SplitLeaf_eq:
  assumes "bt_pages T p = Some (Leaf l)" "array_Split (l_array l) = (L, R)" "R \<noteq> []"
    "new_page_ok T (bt_next_page_id T)" "leaf_max_size T \<le> leaf_page_size T"
  shows "SplitLeaf T p =
     Some (T\<lparr>bt_next_page_id := bt_next_page_id T + 1,
             bt_pages := (bt_pages T)
               (bt_next_page_id T \<mapsto> Leaf \<lparr>l_max_size = leaf_max_size T,
                                              l_next_page_id = l_next_page_id l, l_array = R\<rparr>,
                p \<mapsto> Leaf (l\<lparr>l_array := L, l_next_page_id := bt_next_page_id T\<rparr>))\<rparr>,
           fst (hd R), bt_next_page_id T)"
  using assms by (cases R) (simp_all add: SplitLeaf_def NewLeafPage_def first_key_def)

lemma finish_split_Nil:
  assumes "new_page_ok T (bt_next_page_id T)" "internal_max_size T + 1 \<le> internal_page_size T"
  shows "finish_split T [] True lk lp sk sp =
     Some (T\<lparr>bt_next_page_id := bt_next_page_id T + 1, root_page_id := bt_next_page_id T,
             bt_pages := (bt_pages T)(bt_next_page_id T \<mapsto>
               Internal \<lparr>i_max_size = internal_max_size T + 1,
                         i_array = array_Insert sk sp [(lk, lp)]\<rparr>)\<rparr>)"
  using assms by (simp add: finish_split_def NewInternalPage_def internal_Insert_def)

lemma finish_split_safe:
  assumes "bt_pages T p = Some (Internal n)" "length (i_array n) + 1 < i_max_size n"
  shows "finish_split T (p # ws) hh lk lp sk sp =
     Some (T\<lparr>bt_pages := (bt_pages T)(p \<mapsto> Internal (n\<lparr>i_array := array_Insert sk sp (i_array n)\<rparr>))\<rparr>)"
proof -
  have "array_Insert sk sp (i_array n) \<noteq> []" by simp
  then obtain x xs where "array_Insert sk sp (i_array n) = x # xs"
    by (cases "array_Insert sk sp (i_array n)") auto
  moreover from this have "Suc (length xs) = length (i_array n) + 1"
    using array_Insert_length[of sk sp "i_array n"] by simp
  ultimately show ?thesis using assms
    by (simp add: finish_split_def internal_Insert_def first_key_def Let_def)
qed

lemma finish_split_unsafe:
  assumes "bt_pages T p = Some (Internal n)" "\<not> length (i_array n) + 1 < i_max_size n"
    "array_Split (array_Insert sk sp (i_array n)) = (L, R)" "R \<noteq> []"
    "new_page_ok T (bt_next_page_id T)" "internal_max_size T + 1 \<le> internal_page_size T"
  shows "finish_split T (p # ws) hh lk lp sk sp =
     finish_split
       (T\<lparr>bt_next_page_id := bt_next_page_id T + 1,
          bt_pages := (bt_pages T)
            (bt_next_page_id T \<mapsto> Internal \<lparr>i_max_size = internal_max_size T + 1, i_array = R\<rparr>,
             p \<mapsto> Internal (n\<lparr>i_array := L\<rparr>))\<rparr>)
       ws hh (fst (hd (array_Insert sk sp (i_array n)))) p (fst (hd R)) (bt_next_page_id T)"
proof -
  have "array_Insert sk sp (i_array n) \<noteq> []" by simp
  then obtain x xs where x: "array_Insert sk sp (i_array n) = x # xs"
    by (cases "array_Insert sk sp (i_array n)") auto
  from this have l: "Suc (length xs) = length (i_array n) + 1"
    using array_Insert_length[of sk sp "i_array n"] by simp
  obtain r rs where r: "R = r # rs" using assms(4) by (cases R) auto
  have sp: "array_Split (x # xs) = (L, r # rs)" using assms(3) x r by simp
  show ?thesis using assms(1,2,5,6) l sp unfolding x r
    by (simp add: finish_split_def internal_Insert_def first_key_def Let_def x
        SplitInternal_def NewInternalPage_def)
qed

lemma insert_at_refines_leaf:
  assumes r: "rep (bt_pages T) lm im (ALeaf p xs)"
    and sz: "leaf_max_size T = lm" "internal_max_size T = im"
    and wf: "wf_t (ALeaf p xs)" and p0: "0 \<le> p" and pn: "p < bt_next_page_id T" and lm: "2 \<le> lm"
    and caps: "caps_ok T"
  shows "ins_refines key v T ctx (ALeaf p xs) (ains lm im (ALeaf p xs) key v (bt_next_page_id T))"
proof -
  from r obtain l where l: "bt_pages T p = Some (Leaf l)" "l_max_size l = lm" "l_array l = xs"
    by auto
  have pv: "p \<noteq> INVALID_PAGE_ID" using p0 by (simp add: INVALID_PAGE_ID_def)
  note ia = insert_at_leaf[OF l(1) pv, of key v ctx]
  show ?thesis
  proof (cases "key \<in> fst ` set xs")
    case True
    have a: "ains lm im (ALeaf p xs) key v (bt_next_page_id T) = Stay False (ALeaf p xs) (bt_next_page_id T)"
      using True by (simp add: leaf_Insert_def)
    have i: "insert_at key v (T, ctx) p = Some (T, False)"
      using ia True l(3) by (simp add: leaf_Insert_def)
    show ?thesis unfolding a ins_refines.simps
      using i r sz by (intro exI[of _ T]) (simp add: frame_ok_def)
  next
    case False
    let ?xs' = "array_Insert key v xs"
    let ?l' = "l\<lparr>l_array := ?xs'\<rparr>"
    let ?T1 = "T\<lparr>bt_pages := (bt_pages T)(p \<mapsto> Leaf ?l')\<rparr>"
    let ?ctx1 = "ctx\<lparr>write_set := p # write_set ctx\<rparr>"
    have i: "insert_at key v (T, ctx) p = do { t2 \<leftarrow> Split ?T1 ?ctx1; Some (t2, True) }"
      using ia False l(3) by (simp add: leaf_Insert_def)
    have pg1: "bt_pages ?T1 p = Some (Leaf ?l')" by simp
    have ws1: "write_set ?ctx1 = p # write_set ctx" by simp
    note sl = Split_leaf[OF pg1 ws1]
    show ?thesis
    proof (cases "length ?xs' < lm")
      case True
      have a: "ains lm im (ALeaf p xs) key v (bt_next_page_id T) = Stay True (ALeaf p ?xs') (bt_next_page_id T)"
        using False True by (simp add: leaf_Insert_def)
      have s: "Split ?T1 ?ctx1 = Some ?T1" using sl True l(2) by simp
      show ?thesis unfolding a ins_refines.simps
        using i s l(2) sz by (intro exI[of _ ?T1]) (simp add: frame_ok_def)
    next
      case ge: False
      obtain L R where lr: "array_Split ?xs' = (L, R)" by (cases "array_Split ?xs'")
      have len: "2 \<le> length ?xs'" using ge lm by simp
      note sp = array_Split_parts[OF len lr]
      have a: "ains lm im (ALeaf p xs) key v (bt_next_page_id T) =
          Over (ALeaf p L) (fst (hd R)) (ALeaf (bt_next_page_id T) R) (bt_next_page_id T + 1)"
        using False ge lr by (simp add: leaf_Insert_def)
      have lr': "array_Split (l_array ?l') = (L, R)" using lr by simp
      have np: "new_page_ok ?T1 (bt_next_page_id ?T1)" "leaf_max_size ?T1 \<le> leaf_page_size ?T1"
        using caps by (simp_all add: caps_ok_def)
      note se = SplitLeaf_eq[OF pg1 lr' sp(2) np]
      let ?T2 = "?T1\<lparr>bt_next_page_id := bt_next_page_id ?T1 + 1,
             bt_pages := (bt_pages ?T1)
               (bt_next_page_id ?T1 \<mapsto> Leaf \<lparr>l_max_size = leaf_max_size ?T1,
                                              l_next_page_id = l_next_page_id ?l', l_array = R\<rparr>,
                p \<mapsto> Leaf (?l'\<lparr>l_array := L, l_next_page_id := bt_next_page_id ?T1\<rparr>))\<rparr>"
      have fk: "first_key L = Some (fst (hd L))" using sp(1) by (cases L) (simp_all add: first_key_def)
      have s: "Split ?T1 ?ctx1 =
          finish_split ?T2 (write_set ctx) (header_held ctx) (fst (hd L)) p (fst (hd R)) (bt_next_page_id T)"
        unfolding sl se using ge l(2) lr fk by simp
      have rf: "root_first (ALeaf p L) = fst (hd L)" by (simp add: root_first_def)
      have pne: "p \<noteq> bt_next_page_id T" using pn by simp
      show ?thesis unfolding a ins_refines.simps rf apid.simps
      proof (intro exI[of _ ?T2] conjI)
        show "insert_at key v (T, ctx) p =
            do { t2 \<leftarrow> finish_split ?T2 (write_set ctx) (header_held ctx) (fst (hd L)) p (fst (hd R)) (bt_next_page_id T);
                 Some (t2, True) }"
          unfolding i s ..
        show "frame_ok T ?T2 (ALeaf p xs)" by (simp add: frame_ok_def)
        show "bt_next_page_id ?T2 = bt_next_page_id T + 1" by simp
        show "rep (bt_pages ?T2) (leaf_max_size T) (internal_max_size T) (ALeaf p L)"
          using l(2) sz by simp
        show "rep (bt_pages ?T2) (leaf_max_size T) (internal_max_size T) (ALeaf (bt_next_page_id T) R)"
          using pne sz by simp
      qed
    qed
  qed
qed

lemma array_Split_map:
  "array_Split (map f es) = (map f (fst (array_Split es)), map f (snd (array_Split es)))"
  by (simp add: array_Split_def take_map drop_map)

lemma hd_map_fst: "es \<noteq> [] \<Longrightarrow> fst (hd (map (\<lambda>e. (fst e, g (snd e))) es)) = fst (hd es)"
  by (cases es) simp_all

lemma insert_at_refines_node:
  fixes T :: "('k::linorder, 'v) BPlusTree"
  assumes r: "rep (bt_pages T) lm im (ANode p es)"
    and sz: "leaf_max_size T = lm" "internal_max_size T = im"
    and wf: "wf_t (ANode p es)" and d: "distinct (pids (ANode p es))"
    and bd: "\<forall>q\<in>set (pids (ANode p es)). 0 \<le> q \<and> q < bt_next_page_id T"
    and lm: "2 \<le> lm" and im: "1 \<le> im" and caps: "caps_ok T"
    and IH: "\<And>e (T :: ('k, 'v) BPlusTree) ctx. e \<in> set es \<Longrightarrow> rep (bt_pages T) lm im (snd e) \<Longrightarrow>
        leaf_max_size T = lm \<Longrightarrow> internal_max_size T = im \<Longrightarrow> wf_t (snd e) \<Longrightarrow>
        distinct (pids (snd e)) \<Longrightarrow> (\<forall>q\<in>set (pids (snd e)). 0 \<le> q \<and> q < bt_next_page_id T) \<Longrightarrow>
        caps_ok T \<Longrightarrow>
        ins_refines key v T ctx (snd e) (ains lm im (snd e) key v (bt_next_page_id T))"
  shows "ins_refines key v T ctx (ANode p es) (ains lm im (ANode p es) key v (bt_next_page_id T))"
proof -
  let ?f = "\<lambda>e. (fst e, apid (snd e))"
  let ?nxt = "bt_next_page_id T"
  have ch: "\<And>e. e \<in> set es \<Longrightarrow> ins_ok key v (snd e) (ains lm im (snd e) key v ?nxt)"
  proof -
    fix e assume e: "e \<in> set es"
    then have "wf_t (snd e)" using wf by (simp add: wf_t_node entries_ok_def)
    then show "ins_ok key v (snd e) (ains lm im (snd e) key v ?nxt)" using lm im by (rule ains_ok)
  qed
  from ains_node_shape[OF wf ch] obtain A k c B where
    es1: "lower_first key es = A @ (k, c) # B"
    and ei: "es ! length A \<in> set es" and c: "c = snd (es ! length A)"
    and ci: "child_index key es = Some (length A)"
    and snds: "map snd es = map snd A @ c # map snd B"
    and len: "length es = length A + 1 + length B"
    and ok1: "entries_ok (A @ (k, c) # B)" and kle: "k \<le> key" and kB: "\<forall>b\<in>set B. key < fst b"
    and wfc: "wf_t c"
    and res: "ains lm im (ANode p es) key v ?nxt =
        (case ains lm im c key v ?nxt of
           Stay b c' n \<Rightarrow> Stay b (ANode p (A @ (k, c') # B)) n
         | Over cl sk cr n \<Rightarrow>
             if length es + 1 < im + 1 then Stay True (ANode p (A @ (k, cl) # (sk, cr) # B)) n
             else Over (ANode p (fst (array_Split (A @ (k, cl) # (sk, cr) # B))))
                    (fst (hd (snd (array_Split (A @ (k, cl) # (sk, cr) # B)))))
                    (ANode n (snd (array_Split (A @ (k, cl) # (sk, cr) # B)))) (n + 1))"
    by blast
  from wf have ne: "es \<noteq> []" by (simp add: wf_t_node)
  let ?n0 = "\<lparr>i_max_size = im + 1, i_array = map ?f es\<rparr>"
  have pg: "bt_pages T p = Some (Internal ?n0)" using r by simp
  have chr: "\<forall>e\<in>set es. rep (bt_pages T) lm im (snd e)" using r by simp
  have p0: "0 \<le> p" and pn: "p < ?nxt" using bd by simp_all
  have pv: "p \<noteq> INVALID_PAGE_ID" using p0 by (simp add: INVALID_PAGE_ID_def)
  have lA: "length A < length es" using len by simp
  have ci': "child_index key (i_array ?n0) = Some (length A)" using ci by simp
  have nth: "snd (i_array ?n0 ! length A) = apid c" using lA c by simp
  have lf: "lower_first key (i_array ?n0) = map ?f (A @ (k, c) # B)"
    using lower_first_map[OF ne, of apid key] es1 by simp
  let ?T1 = "T\<lparr>bt_pages := (bt_pages T)(p \<mapsto> Internal \<lparr>i_max_size = im + 1, i_array = map ?f (A @ (k, c) # B)\<rparr>)\<rparr>"
  let ?ctx1 = "if length es + 1 < im + 1 then ctx\<lparr>header_held := False, write_set := [p]\<rparr>
               else ctx\<lparr>write_set := p # write_set ctx\<rparr>"
  have step: "insert_at key v (T, ctx) p = insert_at key v (?T1, ?ctx1) (apid c)"
    using insert_at_node[OF pg pv ci', of v ctx] unfolding nth lf by simp
  let ?PA = "concat (map (\<lambda>e. pids (snd e)) A)"
  let ?PB = "concat (map (\<lambda>e. pids (snd e)) B)"
  have pt: "pids (ANode p es) = p # ?PA @ pids c @ ?PB"
    unfolding pids_node snds by (simp add: comp_def)
  have d': "distinct (p # ?PA @ pids c @ ?PB)" using d unfolding pt .
  have bd': "\<forall>q\<in>set (p # ?PA @ pids c @ ?PB). 0 \<le> q \<and> q < ?nxt" using bd unfolding pt .
  have pnc: "p \<notin> set (pids c)" using d' by simp
  have dc: "distinct (pids c)" using d' by simp
  have bdc: "\<forall>q\<in>set (pids c). 0 \<le> q \<and> q < ?nxt" using bd' by simp
  have ltc: "\<forall>q\<in>set (pids c). q < ?nxt" using bdc by simp
  have rc: "rep (bt_pages T) lm im c" using chr ei c by simp
  have rc1: "rep (bt_pages ?T1) lm im c" using rc pnc by (intro rep_frame[OF rc]) auto
  have caps1: "caps_ok ?T1" using caps by (simp add: caps_ok_def)
  have hr: "ins_refines key v ?T1 ?ctx1 c (ains lm im c key v ?nxt)"
    using IH[OF ei, of ?T1 ?ctx1] rc1 sz caps1 wfc dc bdc unfolding c[symmetric] by simp
  have hc: "ins_ok key v c (ains lm im c key v ?nxt)" using ch[OF ei] c by simp
  have hp: "ins_pids ?nxt c (ains lm im c key v ?nxt)" using wfc lm im dc ltc by (rule ains_pids)
  have sib: "\<forall>e\<in>set A \<union> set B. rep (bt_pages T) lm im (snd e) \<and>
      (\<forall>q\<in>set (pids (snd e)). q \<noteq> p \<and> q \<notin> set (pids c) \<and> q < ?nxt)"
  proof
    fix e assume e: "e \<in> set A \<union> set B"
    then have "snd e \<in> set (map snd es)" unfolding snds by auto
    then obtain e' where e': "e' \<in> set es" "snd e' = snd e" by auto
    with chr have 1: "rep (bt_pages T) lm im (snd e)" by fastforce
    have sub: "set (pids (snd e)) \<subseteq> set ?PA \<union> set ?PB" using e by auto
    have 2: "\<forall>q\<in>set (pids (snd e)). q \<noteq> p \<and> q \<notin> set (pids c) \<and> q < ?nxt"
    proof
      fix q assume "q \<in> set (pids (snd e))"
      with sub have q: "q \<in> set ?PA \<union> set ?PB" by blast
      with d' have "q \<noteq> p" "q \<notin> set (pids c)" by auto
      moreover from q bd' have "q < ?nxt" by auto
      ultimately show "q \<noteq> p \<and> q \<notin> set (pids c) \<and> q < ?nxt" by simp
    qed
    from 1 2 show "rep (bt_pages T) lm im (snd e) \<and>
      (\<forall>q\<in>set (pids (snd e)). q \<noteq> p \<and> q \<notin> set (pids c) \<and> q < ?nxt)" ..
  qed
  show ?thesis
  proof (cases "ains lm im c key v ?nxt")
    case (Stay b c' n)
    with hr sz obtain T' where t': "insert_at key v (?T1, ?ctx1) (apid c) = Some (T', b)"
      "frame_ok ?T1 T' c" "bt_next_page_id T' = n" "rep (bt_pages T') lm im c'"
      by auto
    from hc Stay have ac: "apid c' = apid c" by simp
    have ra: "ains lm im (ANode p es) key v ?nxt = Stay b (ANode p (A @ (k, c') # B)) n"
      using res Stay by simp
    have fr: "\<And>q. q < ?nxt \<Longrightarrow> q \<notin> set (pids c) \<Longrightarrow> bt_pages T' q = bt_pages ?T1 q"
      using t'(2) by (simp add: frame_ok_def)
    have pg': "bt_pages T' p = Some (Internal \<lparr>i_max_size = im + 1, i_array = map ?f (A @ (k, c') # B)\<rparr>)"
      using fr[OF pn pnc] ac by simp
    have sibs: "\<forall>e\<in>set A \<union> set B. rep (bt_pages T') lm im (snd e)"
    proof
      fix e assume e: "e \<in> set A \<union> set B"
      with sib have 1: "rep (bt_pages T) lm im (snd e)"
        and 2: "\<forall>q\<in>set (pids (snd e)). q \<noteq> p \<and> q \<notin> set (pids c) \<and> q < ?nxt" by auto
      show "rep (bt_pages T') lm im (snd e)"
      proof (rule rep_frame[OF 1], rule ballI)
        fix q assume "q \<in> set (pids (snd e))"
        with 2 have q: "q \<noteq> p" "q \<notin> set (pids c)" "q < ?nxt" by auto
        from fr[OF q(3) q(2)] q(1) show "bt_pages T' q = bt_pages T q" by simp
      qed
    qed
    have 1: "frame_ok T T' (ANode p es)"
      unfolding frame_ok_def
    proof (intro conjI allI impI)
      show "leaf_max_size T' = leaf_max_size T" "internal_max_size T' = internal_max_size T"
        "leaf_page_size T' = leaf_page_size T" "internal_page_size T' = internal_page_size T"
        "new_page_ok T' = new_page_ok T" "root_page_id T' = root_page_id T"
        using t'(2) by (simp_all add: frame_ok_def)
      fix q assume "q < ?nxt \<and> q \<notin> set (pids (ANode p es))"
      then have q: "q < ?nxt" "q \<noteq> p" "q \<notin> set (pids c)" unfolding pt by auto
      from fr[OF q(1) q(3)] q(2) show "bt_pages T' q = bt_pages T q" by simp
    qed
    have 2: "rep (bt_pages T') lm im (ANode p (A @ (k, c') # B))"
      using pg' sibs t'(4) by auto
    show ?thesis unfolding ra ins_refines.simps apid.simps
      using step t'(1,3) 1 2 sz by (intro exI[of _ T']) simp
  next
    case (Over cl sk cr n)
    with hr sz obtain T' where t': "insert_at key v (?T1, ?ctx1) (apid c) =
           do { t2 \<leftarrow> finish_split T' (write_set ?ctx1) (header_held ?ctx1)
                          (root_first cl) (apid cl) sk (apid cr);
                Some (t2, True) }"
      "frame_ok ?T1 T' c" "bt_next_page_id T' = n" "rep (bt_pages T') lm im cl"
      "rep (bt_pages T') lm im cr"
      by auto
    from hc Over have h: "wf_t cl" "wf_t cr" "apid cl = apid c" "root_first cl \<in> allkeys cl"
      "\<forall>x\<in>allkeys cl. x < sk" "\<forall>x\<in>allkeys cr. sk \<le> x" "sk \<in> insert key (allkeys c)"
      "allkeys cl \<union> allkeys cr \<subseteq> insert key (allkeys c)"
      by simp_all
    from hp Over have hq: "?nxt < n" "set (pids cl) \<union> set (pids cr) \<subseteq> set (pids c) \<union> {?nxt..<n}"
      by simp_all
    let ?es2 = "A @ (k, cl) # (sk, cr) # B"
    have ins2: "array_Insert sk cr (A @ (k, cl) # B) = ?es2"
      by (rule entries_ok_insert_split(2)[OF ok1 h(1) h(2) h(8) h(5) h(6) h(7) h(4) kle kB])
    have fr: "\<And>q. q < ?nxt \<Longrightarrow> q \<notin> set (pids c) \<Longrightarrow> bt_pages T' q = bt_pages ?T1 q"
      using t'(2) by (simp add: frame_ok_def)
    let ?n1 = "\<lparr>i_max_size = im + 1, i_array = map ?f (A @ (k, cl) # B)\<rparr>"
    have pg': "bt_pages T' p = Some (Internal ?n1)"
      using fr[OF pn pnc] h(3) by simp
    have arr: "array_Insert sk (apid cr) (i_array ?n1) = map ?f ?es2"
      using array_Insert_map[of apid sk cr "A @ (k, cl) # B"] unfolding ins2 by simp
    have l1: "length (i_array ?n1) = length es" using len by simp
    have sz': "leaf_max_size T' = lm" "internal_max_size T' = im" "root_page_id T' = root_page_id T"
      using t'(2) sz by (simp_all add: frame_ok_def)
    have cp': "leaf_page_size T' = leaf_page_size T" "internal_page_size T' = internal_page_size T"
      "new_page_ok T' = new_page_ok T"
      using t'(2) by (simp_all add: frame_ok_def)
    have np: "new_page_ok T' (bt_next_page_id T')" "internal_max_size T' + 1 \<le> internal_page_size T'"
      using caps hq(1) sz sz' unfolding cp' t'(3) by (simp_all add: caps_ok_def)
    have kids: "\<forall>e\<in>set ?es2. rep (bt_pages T') lm im (snd e) \<and> (\<forall>q\<in>set (pids (snd e)). q \<noteq> p \<and> q < n)"
    proof
      fix e assume "e \<in> set ?es2"
      then consider (s) "e \<in> set A \<union> set B" | (l) "snd e = cl" | (r) "snd e = cr" by auto
      then show "rep (bt_pages T') lm im (snd e) \<and> (\<forall>q\<in>set (pids (snd e)). q \<noteq> p \<and> q < n)"
      proof cases
        case s
        with sib have 1: "rep (bt_pages T) lm im (snd e)"
          and 2: "\<forall>q\<in>set (pids (snd e)). q \<noteq> p \<and> q \<notin> set (pids c) \<and> q < ?nxt" by auto
        have "rep (bt_pages T') lm im (snd e)"
        proof (rule rep_frame[OF 1], rule ballI)
          fix q assume "q \<in> set (pids (snd e))"
          with 2 have q: "q \<noteq> p" "q \<notin> set (pids c)" "q < ?nxt" by auto
          from fr[OF q(3) q(2)] q(1) show "bt_pages T' q = bt_pages T q" by simp
        qed
        moreover have "\<forall>q\<in>set (pids (snd e)). q \<noteq> p \<and> q < n" using 2 hq(1) by fastforce
        ultimately show ?thesis ..
      next
        case l
        have "\<forall>q\<in>set (pids cl). q \<noteq> p \<and> q < n"
        proof
          fix q assume "q \<in> set (pids cl)"
          with hq(2) have "q \<in> set (pids c) \<or> (?nxt \<le> q \<and> q < n)" by auto
          then show "q \<noteq> p \<and> q < n" using pnc pn ltc hq(1) by fastforce
        qed
        with t'(4) l show ?thesis by simp
      next
        case r
        have "\<forall>q\<in>set (pids cr). q \<noteq> p \<and> q < n"
        proof
          fix q assume "q \<in> set (pids cr)"
          with hq(2) have "q \<in> set (pids c) \<or> (?nxt \<le> q \<and> q < n)" by auto
          then show "q \<noteq> p \<and> q < n" using pnc pn ltc hq(1) by fastforce
        qed
        with t'(5) r show ?thesis by simp
      qed
    qed
    have kids_frame: "\<And>pg'' e. e \<in> set ?es2 \<Longrightarrow> (\<And>q. q \<noteq> p \<Longrightarrow> q < n \<Longrightarrow> pg'' q = bt_pages T' q)
        \<Longrightarrow> rep pg'' lm im (snd e)"
    proof -
      fix pg'' :: "page_id_t \<rightharpoonup> ('k, 'v) TreePage" and e
      assume e: "e \<in> set ?es2" and f: "\<And>q. q \<noteq> p \<Longrightarrow> q < n \<Longrightarrow> pg'' q = bt_pages T' q"
      from kids e have 1: "rep (bt_pages T') lm im (snd e)"
        and 2: "\<forall>q\<in>set (pids (snd e)). q \<noteq> p \<and> q < n" by auto
      show "rep pg'' lm im (snd e)" using 2 f by (intro rep_frame[OF 1]) auto
    qed
    have frT: "\<And>q. q < ?nxt \<Longrightarrow> q \<notin> set (pids (ANode p es)) \<Longrightarrow> bt_pages T' q = bt_pages T q"
    proof -
      fix q assume "q < ?nxt" "q \<notin> set (pids (ANode p es))"
      then have q: "q < ?nxt" "q \<noteq> p" "q \<notin> set (pids c)" unfolding pt by auto
      from fr[OF q(1) q(3)] q(2) show "bt_pages T' q = bt_pages T q" by simp
    qed
    show ?thesis
    proof (cases "length es + 1 < im + 1")
      case True
      have ra: "ains lm im (ANode p es) key v ?nxt = Stay True (ANode p ?es2) n"
        using res Over True by simp
      have safe: "length (i_array ?n1) + 1 < i_max_size ?n1" using True l1 by simp
      let ?Tp = "T'\<lparr>bt_pages := (bt_pages T')(p \<mapsto> Internal \<lparr>i_max_size = im + 1, i_array = map ?f ?es2\<rparr>)\<rparr>"
      have fs: "finish_split T' [p] False (root_first cl) (apid cl) sk (apid cr) = Some ?Tp"
        using finish_split_safe[OF pg' safe, of "[]" False "root_first cl" "apid cl" sk "apid cr"]
        unfolding arr by simp
      have i: "insert_at key v (T, ctx) p = Some (?Tp, True)"
        unfolding step t'(1) using True fs by simp
      have 1: "frame_ok T ?Tp (ANode p es)"
        unfolding frame_ok_def using sz' sz cp' frT by (auto simp: pt)
      have 2: "rep (bt_pages ?Tp) lm im (ANode p ?es2)"
        unfolding rep.simps
      proof (intro conjI ballI)
        show "bt_pages ?Tp p = Some (Internal \<lparr>i_max_size = im + 1, i_array = map ?f ?es2\<rparr>)" by simp
        fix e assume "e \<in> set ?es2"
        then show "rep (bt_pages ?Tp) lm im (snd e)" by (rule kids_frame) simp
      qed
      show ?thesis unfolding ra ins_refines.simps apid.simps
        using i t'(3) 1 2 sz by (intro exI[of _ ?Tp]) simp
    next
      case False
      obtain L R where lr: "array_Split ?es2 = (L, R)" by (cases "array_Split ?es2")
      have l2: "2 \<le> length ?es2" by simp
      note sp = array_Split_parts[OF l2 lr]
      have ra: "ains lm im (ANode p es) key v ?nxt = Over (ANode p L) (fst (hd R)) (ANode n R) (n + 1)"
        using res Over False lr by simp
      have unsafe: "\<not> length (i_array ?n1) + 1 < i_max_size ?n1" using False l1 by simp
      have spm: "array_Split (array_Insert sk (apid cr) (i_array ?n1)) = (map ?f L, map ?f R)"
        unfolding arr array_Split_map lr by simp
      have rne: "map ?f R \<noteq> []" using sp(2) by simp
      let ?T2 = "T'\<lparr>bt_next_page_id := n + 1,
          bt_pages := (bt_pages T')
            (n \<mapsto> Internal \<lparr>i_max_size = im + 1, i_array = map ?f R\<rparr>,
             p \<mapsto> Internal \<lparr>i_max_size = im + 1, i_array = map ?f L\<rparr>)\<rparr>"
      have e2: "?es2 \<noteq> []" by simp
      have hd2: "fst (hd (map ?f ?es2)) = fst (hd L)"
        using hd_map_fst[OF e2, of apid] sp(4) by simp
      have hdR: "fst (hd (map ?f R)) = fst (hd R)" using hd_map_fst[OF sp(2), of apid] by simp
      have fs: "finish_split T' (p # write_set ctx) (header_held ctx) (root_first cl) (apid cl) sk (apid cr)
          = finish_split ?T2 (write_set ctx) (header_held ctx) (fst (hd L)) p (fst (hd R)) n"
        using finish_split_unsafe[OF pg' unsafe spm rne np, of "write_set ctx" "header_held ctx" "root_first cl" "apid cl"]
        unfolding arr hd2 hdR t'(3) sz'(2) by simp
      have i: "insert_at key v (T, ctx) p =
          do { t2 \<leftarrow> finish_split ?T2 (write_set ctx) (header_held ctx) (fst (hd L)) p (fst (hd R)) n;
               Some (t2, True) }"
        unfolding step t'(1) using False fs by simp
      have pnn: "p \<noteq> n" using pn hq(1) by simp
      have 1: "frame_ok T ?T2 (ANode p es)"
        unfolding frame_ok_def using sz' sz cp' frT hq(1) by (auto simp: pt)
      have 2: "rep (bt_pages ?T2) lm im (ANode p L)"
        unfolding rep.simps
      proof (intro conjI ballI)
        show "bt_pages ?T2 p = Some (Internal \<lparr>i_max_size = im + 1, i_array = map ?f L\<rparr>)" by simp
        fix e assume "e \<in> set L"
        then have "e \<in> set ?es2" unfolding sp(3)[symmetric] by simp
        then show "rep (bt_pages ?T2) lm im (snd e)" by (rule kids_frame) simp
      qed
      have 3: "rep (bt_pages ?T2) lm im (ANode n R)"
        unfolding rep.simps
      proof (intro conjI ballI)
        show "bt_pages ?T2 n = Some (Internal \<lparr>i_max_size = im + 1, i_array = map ?f R\<rparr>)"
          using pnn by simp
        fix e assume "e \<in> set R"
        then have "e \<in> set ?es2" unfolding sp(3)[symmetric] by simp
        then show "rep (bt_pages ?T2) lm im (snd e)" by (rule kids_frame) simp
      qed
      have rf: "root_first (ANode p L) = fst (hd L)" by (simp add: root_first_def)
      show ?thesis unfolding ra ins_refines.simps apid.simps rf
        using i 1 2 3 sz by (intro exI[of _ ?T2]) simp
    qed
  qed
qed

lemma insert_at_refines:
  fixes T :: "('k::linorder, 'v) BPlusTree"
  assumes "rep (bt_pages T) lm im t" "leaf_max_size T = lm" "internal_max_size T = im"
    "wf_t t" "distinct (pids t)" "\<forall>q\<in>set (pids t). 0 \<le> q \<and> q < bt_next_page_id T"
    "caps_ok T"
    and lm: "2 \<le> lm" and im: "1 \<le> im"
  shows "ins_refines key v T ctx t (ains lm im t key v (bt_next_page_id T))"
  using assms(1-7)
proof (induction t arbitrary: T ctx rule: atree_induct)
  case (ALeaf p xs)
  then show ?case using lm by (intro insert_at_refines_leaf) simp_all
next
  case (ANode p es)
  show ?case
    by (rule insert_at_refines_node[OF ANode.prems(1-6) lm im ANode.prems(7)]) (rule ANode.IH)
qed

section \<open>Lookup\<close>

lemma FindLeaf_loop_rep:
  assumes "rep pg lm im t" "wf_t t" "\<forall>q\<in>set (pids t). 0 \<le> q"
  shows "\<exists>p l. FindLeaf_loop pg key (apid t) = Some p \<and> pg p = Some (Leaf l) \<and>
           sorted_wrt (<) (map fst (l_array l)) \<and>
           map_of (l_array l) key = map_of (leaves_of t) key"
  using assms
proof (induction t rule: atree_induct)
  case (ALeaf p xs)
  then obtain l where l: "pg p = Some (Leaf l)" "l_array l = xs" by auto
  have "p \<noteq> INVALID_PAGE_ID" using ALeaf.prems(3) by (auto simp: INVALID_PAGE_ID_def)
  then have "FindLeaf_loop pg key p = Some p" using l by (simp add: FindLeaf_loop.simps[of pg key p])
  then show ?case using l ALeaf.prems(2) by simp
next
  case (ANode p es)
  let ?f = "\<lambda>e. (fst e, apid (snd e))"
  have ch: "\<And>e. e \<in> set es \<Longrightarrow> ins_ok key undefined (snd e) (ains 2 1 (snd e) key undefined 0)"
  proof -
    fix e assume e: "e \<in> set es"
    then have "wf_t (snd e)" using ANode.prems(2) by (simp add: wf_t_node entries_ok_def)
    then show "ins_ok key undefined (snd e) (ains 2 1 (snd e) key undefined 0)" by (intro ains_ok) simp_all
  qed
  from ains_node_shape[OF ANode.prems(2) ch] obtain A k c B where
    ei: "es ! length A \<in> set es" and c: "c = snd (es ! length A)"
    and ci: "child_index key es = Some (length A)"
    and snds: "map snd es = map snd A @ c # map snd B"
    and len: "length es = length A + 1 + length B"
    and ok1: "entries_ok (A @ (k, c) # B)" and kle: "k \<le> key" and kB: "\<forall>b\<in>set B. key < fst b"
    and wfc: "wf_t c"
    by blast
  have pg: "pg p = Some (Internal \<lparr>i_max_size = im + 1, i_array = map ?f es\<rparr>)"
    using ANode.prems(1) by simp
  have pv: "p \<noteq> INVALID_PAGE_ID" using ANode.prems(3) by (auto simp: INVALID_PAGE_ID_def)
  have lA: "length A < length es" using len by simp
  have step: "FindLeaf_loop pg key p = FindLeaf_loop pg key (apid c)"
    using pg pv ci lA c by (simp add: FindLeaf_loop.simps[of pg key p])
  have rc: "rep pg lm im c" using ANode.prems(1) ei c by simp
  have pc: "\<forall>q\<in>set (pids c). 0 \<le> q" using ANode.prems(3) ei c by auto
  from ANode.IH[OF ei] rc wfc pc c obtain q l where
    q: "FindLeaf_loop pg key (apid c) = Some q" "pg q = Some (Leaf l)"
       "sorted_wrt (<) (map fst (l_array l))" "map_of (l_array l) key = map_of (leaves_of c) key"
    by auto
  have "map_of (leaves_of (ANode p es)) key = map_of (leaves_of c) key"
    by (rule node_leaves(4)[OF ok1 kle kB snds])
  with q step show ?case by simp
qed

lemma GetValue_inv:
  assumes "bt_inv T t"
  shows "GetValue T key = Some (map_of (leaves_of t) key)"
proof -
  from assms have r: "rep (bt_pages T) (leaf_max_size T) (internal_max_size T) t" and wf: "wf_t t"
    and p0: "\<forall>q\<in>set (pids t). 0 \<le> q" and root: "root_page_id T = apid t"
    by (simp_all add: bt_inv_def)
  have "0 \<le> apid t" using p0 by simp
  then have ne: "\<not> IsEmpty T" using root by (simp add: IsEmpty_def INVALID_PAGE_ID_def)
  from FindLeaf_loop_rep[OF r wf p0, of key] obtain p l where
    q: "FindLeaf_loop (bt_pages T) key (apid t) = Some p" "bt_pages T p = Some (Leaf l)"
       "sorted_wrt (<) (map fst (l_array l))" "map_of (l_array l) key = map_of (leaves_of t) key"
    by blast
  have "GetValue T key = Some (leaf_GetValue key (l_array l))"
    using ne q(1,2) root by (simp add: GetValue_def FindLeaf_def)
  also have "leaf_GetValue key (l_array l) = map_of (l_array l) key"
    using q(3) by (rule leaf_GetValue_map_of)
  finally show ?thesis using q(4) by simp
qed

section \<open>Insert on the whole tree\<close>

lemma Insert_nonempty:
  assumes "root_page_id T \<noteq> INVALID_PAGE_ID"
  shows "Insert T key v =
     insert_at key v (T, \<lparr>header_held = True, write_set = [], index = [(INVALID_PAGE_ID, 0, False)]\<rparr>)
       (root_page_id T)"
  using assms by (simp add: Insert_def insert_at_def FindLeafMut_def)

lemma Insert_empty:
  assumes "root_page_id T = INVALID_PAGE_ID" "0 \<le> bt_next_page_id T"
    "new_page_ok T (bt_next_page_id T)" "leaf_max_size T \<le> leaf_page_size T"
  shows "Insert T key v =
     Insert (T\<lparr>bt_next_page_id := bt_next_page_id T + 1,
              bt_pages := (bt_pages T)(bt_next_page_id T \<mapsto>
                Leaf \<lparr>l_max_size = leaf_max_size T, l_next_page_id = INVALID_PAGE_ID, l_array = []\<rparr>),
              root_page_id := bt_next_page_id T\<rparr>) key v"
  using assms by (simp add: Insert_def NewLeafPage_def INVALID_PAGE_ID_def)

lemma bt_inv_empty_leaf:
  assumes "0 \<le> bt_next_page_id T"
  shows "bt_inv (T\<lparr>bt_next_page_id := bt_next_page_id T + 1,
              bt_pages := (bt_pages T)(bt_next_page_id T \<mapsto>
                Leaf \<lparr>l_max_size = leaf_max_size T, l_next_page_id = INVALID_PAGE_ID, l_array = []\<rparr>),
              root_page_id := bt_next_page_id T\<rparr>) (ALeaf (bt_next_page_id T) [])"
  using assms by (simp add: bt_inv_def)

lemma array_Insert_pair: "lk < sk \<Longrightarrow> array_Insert sk sp [(lk, lp)] = [(lk, lp), (sk, sp)]"
  by (simp add: array_Insert_def)

lemma Insert_inv:
  fixes T :: "('k::linorder, 'v) BPlusTree"
  assumes inv: "bt_inv T t" and lm: "2 \<le> leaf_max_size T" and im: "1 \<le> internal_max_size T"
    and caps: "caps_ok T"
  shows "\<exists>T'. Insert T key v = Some (T', key \<notin> fst ` set (leaves_of t)) \<and> caps_ok T' \<and>
      bt_inv T' (ains_root (leaf_max_size T) (internal_max_size T) t key v (bt_next_page_id T)) \<and>
      leaf_max_size T' = leaf_max_size T \<and> internal_max_size T' = internal_max_size T \<and>
      leaves_of (ains_root (leaf_max_size T) (internal_max_size T) t key v (bt_next_page_id T)) =
        (if key \<in> fst ` set (leaves_of t) then leaves_of t else array_Insert key v (leaves_of t))"
proof -
  let ?lm = "leaf_max_size T" and ?im = "internal_max_size T" and ?nxt = "bt_next_page_id T"
  let ?ctx = "\<lparr>header_held = True, write_set = [], index = [(INVALID_PAGE_ID, 0, False)]\<rparr>"
  from inv have r: "rep (bt_pages T) ?lm ?im t" and wf: "wf_t t" and d: "distinct (pids t)"
    and bd: "\<forall>q\<in>set (pids t). 0 \<le> q \<and> q < ?nxt" and root: "root_page_id T = apid t"
    by (simp_all add: bt_inv_def)
  have a0: "0 \<le> apid t" "apid t < ?nxt" using bd by simp_all
  then have ne: "root_page_id T \<noteq> INVALID_PAGE_ID" using root by (simp add: INVALID_PAGE_ID_def)
  have i0: "Insert T key v = insert_at key v (T, ?ctx) (apid t)"
    using Insert_nonempty[OF ne] root by simp
  have hr: "ins_refines key v T ?ctx t (ains ?lm ?im t key v ?nxt)"
    using r _ _ wf d bd caps lm im by (rule insert_at_refines) simp_all
  have hc: "ins_ok key v t (ains ?lm ?im t key v ?nxt)" using wf lm im by (rule ains_ok)
  have lt: "\<forall>q\<in>set (pids t). q < ?nxt" using bd by simp
  have hp: "ins_pids ?nxt t (ains ?lm ?im t key v ?nxt)" using wf lm im d lt by (rule ains_pids)
  show ?thesis
  proof (cases "ains ?lm ?im t key v ?nxt")
    case (Stay b t' n)
    with hr obtain T' where t': "insert_at key v (T, ?ctx) (apid t) = Some (T', b)"
      "frame_ok T T' t" "bt_next_page_id T' = n" "rep (bt_pages T') ?lm ?im t'"
      by auto
    from hc Stay have h: "wf_t t'" "apid t' = apid t" "b \<longleftrightarrow> key \<notin> fst ` set (leaves_of t)"
      "leaves_of t' = (if b then array_Insert key v (leaves_of t) else leaves_of t)"
      by simp_all
    from hp Stay have q: "?nxt \<le> n" "distinct (pids t')" "set (pids t') \<subseteq> set (pids t) \<union> {?nxt..<n}"
      by simp_all
    have sz: "leaf_max_size T' = ?lm" "internal_max_size T' = ?im" "root_page_id T' = root_page_id T"
      using t'(2) by (simp_all add: frame_ok_def)
    have cp': "leaf_page_size T' = leaf_page_size T" "internal_page_size T' = internal_page_size T"
      "new_page_ok T' = new_page_ok T"
      using t'(2) by (simp_all add: frame_ok_def)
    have caps': "caps_ok T'"
      using caps q(1) unfolding caps_ok_def cp' sz(1,2) t'(3) by simp
    have bd': "\<forall>q\<in>set (pids t'). 0 \<le> q \<and> q < bt_next_page_id T'"
    proof
      fix x assume "x \<in> set (pids t')"
      with q(3) have "x \<in> set (pids t) \<or> (?nxt \<le> x \<and> x < n)" by auto
      then show "0 \<le> x \<and> x < bt_next_page_id T'" using bd q(1) a0 t'(3) by fastforce
    qed
    have inv': "bt_inv T' t'"
      unfolding bt_inv_def using sz root h(1,2) q(2) bd' t'(4) by simp
    have ar: "ains_root ?lm ?im t key v ?nxt = t'" using Stay by (simp add: ains_root_def)
    show ?thesis unfolding ar using i0 t'(1) h(3,4) inv' sz(1,2) caps' by (intro exI[of _ T']) auto
  next
    case (Over l sk r' n)
    with hr obtain T' where t': "insert_at key v (T, ?ctx) (apid t) =
           do { t2 \<leftarrow> finish_split T' [] True (root_first l) (apid l) sk (apid r'); Some (t2, True) }"
      "frame_ok T T' t" "bt_next_page_id T' = n" "rep (bt_pages T') ?lm ?im l"
      "rep (bt_pages T') ?lm ?im r'"
      by auto
    from hc Over have h: "wf_t l" "wf_t r'" "root_first l \<in> allkeys l"
      "\<forall>x\<in>allkeys l. x < sk" "\<forall>x\<in>allkeys r'. sk \<le> x"
      "key \<notin> fst ` set (leaves_of t)"
      "leaves_of l @ leaves_of r' = array_Insert key v (leaves_of t)"
      by simp_all
    from hp Over have q: "?nxt < n" "distinct (pids l @ pids r')"
      "set (pids l) \<union> set (pids r') \<subseteq> set (pids t) \<union> {?nxt..<n}"
      by simp_all
    have sz: "leaf_max_size T' = ?lm" "internal_max_size T' = ?im"
      using t'(2) by (simp_all add: frame_ok_def)
    have cp': "leaf_page_size T' = leaf_page_size T" "internal_page_size T' = internal_page_size T"
      "new_page_ok T' = new_page_ok T"
      using t'(2) by (simp_all add: frame_ok_def)
    have np: "new_page_ok T' (bt_next_page_id T')" "internal_max_size T' + 1 \<le> internal_page_size T'"
      using caps q(1) unfolding caps_ok_def cp' sz t'(3) by simp_all
    have lksk: "root_first l < sk" using h(3,4) by blast
    let ?t' = "ANode n [(root_first l, l), (sk, r')]"
    let ?T2 = "T'\<lparr>bt_next_page_id := n + 1, root_page_id := n,
             bt_pages := (bt_pages T')(n \<mapsto>
               Internal \<lparr>i_max_size = ?im + 1,
                         i_array = [(root_first l, apid l), (sk, apid r')]\<rparr>)\<rparr>"
    have fs: "finish_split T' [] True (root_first l) (apid l) sk (apid r') = Some ?T2"
      unfolding finish_split_Nil[OF np] array_Insert_pair[OF lksk] t'(3) sz ..
    have i: "Insert T key v = Some (?T2, True)" unfolding i0 t'(1) fs by simp
    have old: "\<forall>x\<in>set (pids l) \<union> set (pids r'). 0 \<le> x \<and> x < n"
    proof
      fix x assume "x \<in> set (pids l) \<union> set (pids r')"
      with q(3) have "x \<in> set (pids t) \<or> (?nxt \<le> x \<and> x < n)" by auto
      then show "0 \<le> x \<and> x < n" using bd q(1) a0 by fastforce
    qed
    have rl: "rep (bt_pages ?T2) ?lm ?im l" using old by (intro rep_frame[OF t'(4)]) auto
    have rr: "rep (bt_pages ?T2) ?lm ?im r'" using old by (intro rep_frame[OF t'(5)]) auto
    have wf': "wf_t ?t'"
      using h(1,2,4,5) lksk wf_root_first_lb[OF h(1)]
      by (simp add: wf_t_node entries_ok_Cons ent_rel_def)
    have d': "distinct (pids ?t')" using q(2) old by auto
    have n0: "0 \<le> n" using q(1) a0 by simp
    have bd': "\<forall>x\<in>set (pids ?t'). 0 \<le> x \<and> x < bt_next_page_id ?T2"
    proof
      fix x assume "x \<in> set (pids ?t')"
      then have "x = n \<or> x \<in> set (pids l) \<union> set (pids r')" by auto
      then have "0 \<le> x \<and> x < n + 1"
      proof
        assume "x = n"
        then show ?thesis using n0 by simp
      next
        assume "x \<in> set (pids l) \<union> set (pids r')"
        with old have "0 \<le> x \<and> x < n" by blast
        then show ?thesis by simp
      qed
      then show "0 \<le> x \<and> x < bt_next_page_id ?T2" by simp
    qed
    have inv': "bt_inv ?T2 ?t'"
      unfolding bt_inv_def using rl rr wf' d' bd' sz by simp
    have lv: "leaves_of ?t' = array_Insert key v (leaves_of t)" using h(7) by simp
    have ar: "ains_root ?lm ?im t key v ?nxt = ?t'" using Over by (simp add: ains_root_def)
    have caps': "caps_ok ?T2"
      using caps q(1) unfolding caps_ok_def by (simp add: cp' sz)
    show ?thesis unfolding ar using i h(6) inv' sz lv caps' by (intro exI[of _ ?T2]) simp
  qed
qed

lemma bt_abs_init:
  assumes "0 \<le> nxt" "lm \<le> leaf_cap" "im + 1 \<le> internal_cap" "\<forall>p. nxt \<le> p \<longrightarrow> grants p"
  shows "bt_abs (BPlusTree_init lm im leaf_cap internal_cap grants nxt) Map.empty"
  using assms by (simp add: bt_abs_def caps_ok_def BPlusTree_init_def)

lemma bt_inv_root: "bt_inv T t \<Longrightarrow> root_page_id T \<noteq> INVALID_PAGE_ID \<and> 0 \<le> bt_next_page_id T"
proof -
  assume a: "bt_inv T t"
  then have "\<forall>q\<in>set (pids t). 0 \<le> q \<and> q < bt_next_page_id T" by (simp add: bt_inv_def)
  moreover have "apid t \<in> set (pids t)" by simp
  ultimately have 1: "0 \<le> apid t" "apid t < bt_next_page_id T" by blast+
  have 2: "root_page_id T = apid t" using a by (simp add: bt_inv_def)
  show ?thesis unfolding 2 using 1 by (simp add: INVALID_PAGE_ID_def)
qed

lemma bt_abs_inv: "bt_inv T t \<Longrightarrow> caps_ok T \<Longrightarrow> bt_abs T (map_of (leaves_of t))"
  using bt_inv_root[of T t] by (auto simp: bt_abs_def)

lemma GetValue_abs:
  assumes "bt_abs T m"
  shows "GetValue T key = Some (m key)"
proof (cases "root_page_id T = INVALID_PAGE_ID")
  case True
  with assms show ?thesis by (simp add: bt_abs_def GetValue_def IsEmpty_def)
next
  case False
  with assms obtain t where t: "bt_inv T t" "m = map_of (leaves_of t)" by (auto simp: bt_abs_def)
  from GetValue_inv[OF t(1), of key] t(2) show ?thesis by simp
qed

lemma Insert_abs:
  fixes T :: "('k::linorder, 'v) BPlusTree"
  assumes abs: "bt_abs T m" and lm: "2 \<le> leaf_max_size T" and im: "1 \<le> internal_max_size T"
  shows "\<exists>T'. Insert T key v = Some (T', key \<notin> dom m) \<and>
      bt_abs T' (if key \<in> dom m then m else m(key \<mapsto> v)) \<and>
      leaf_max_size T' = leaf_max_size T \<and> internal_max_size T' = internal_max_size T"
proof -
  have main: "\<exists>T'. Insert T0 key v = Some (T', key \<notin> dom (map_of (leaves_of t))) \<and>
      bt_abs T' (if key \<in> dom (map_of (leaves_of t)) then map_of (leaves_of t)
                 else (map_of (leaves_of t))(key \<mapsto> v)) \<and>
      leaf_max_size T' = leaf_max_size T0 \<and> internal_max_size T' = internal_max_size T0"
    if inv: "bt_inv T0 t" and lm0: "2 \<le> leaf_max_size T0" and im0: "1 \<le> internal_max_size T0"
      and caps0: "caps_ok T0"
    for T0 :: "('k, 'v) BPlusTree" and t
  proof -
    define t' where "t' = ains_root (leaf_max_size T0) (internal_max_size T0) t key v (bt_next_page_id T0)"
    from Insert_inv[OF inv lm0 im0 caps0, of key v] obtain T' where
      i: "Insert T0 key v = Some (T', key \<notin> fst ` set (leaves_of t))" "bt_inv T' t'"
         "leaf_max_size T' = leaf_max_size T0" "internal_max_size T' = internal_max_size T0"
         "leaves_of t' = (if key \<in> fst ` set (leaves_of t) then leaves_of t
                          else array_Insert key v (leaves_of t))"
         "caps_ok T'"
      unfolding t'_def by blast
    have dm: "dom (map_of (leaves_of t)) = fst ` set (leaves_of t)" by (rule dom_map_of_conv_image_fst)
    have wf: "wf_t t" using inv by (simp add: bt_inv_def)
    have s: "sorted_wrt (<) (map fst (leaves_of t))" using wf by (rule leaves_sorted)
    have m': "map_of (leaves_of t') = (if key \<in> dom (map_of (leaves_of t)) then map_of (leaves_of t)
                 else (map_of (leaves_of t))(key \<mapsto> v))"
    proof (cases "key \<in> fst ` set (leaves_of t)")
      case True
      then show ?thesis using i(5) dm by simp
    next
      case False
      then show ?thesis using i(5) dm array_Insert_sorted(2)[OF s False, of v] by simp
    qed
    from bt_abs_inv[OF i(2) i(6)] have "bt_abs T' (if key \<in> dom (map_of (leaves_of t)) then map_of (leaves_of t)
                 else (map_of (leaves_of t))(key \<mapsto> v))"
      unfolding m' .
    with i(1,3,4) dm show ?thesis by (intro exI[of _ T']) simp
  qed
  show ?thesis
  proof (cases "root_page_id T = INVALID_PAGE_ID")
    case True
    with abs have m: "m = Map.empty" and n0: "0 \<le> bt_next_page_id T" and caps: "caps_ok T"
      by (simp_all add: bt_abs_def)
    have np: "new_page_ok T (bt_next_page_id T)" "leaf_max_size T \<le> leaf_page_size T"
      using caps by (simp_all add: caps_ok_def)
    let ?T0 = "T\<lparr>bt_next_page_id := bt_next_page_id T + 1,
              bt_pages := (bt_pages T)(bt_next_page_id T \<mapsto>
                Leaf \<lparr>l_max_size = leaf_max_size T, l_next_page_id = INVALID_PAGE_ID, l_array = []\<rparr>),
              root_page_id := bt_next_page_id T\<rparr>"
    have e: "Insert T key v = Insert ?T0 key v" using True n0 np by (rule Insert_empty)
    have inv: "bt_inv ?T0 (ALeaf (bt_next_page_id T) [])" using n0 by (rule bt_inv_empty_leaf)
    have caps0: "caps_ok ?T0" using caps by (simp add: caps_ok_def)
    from main[OF inv _ _ caps0] lm im show ?thesis unfolding e m by simp
  next
    case False
    with abs obtain t where t: "bt_inv T t" "m = map_of (leaves_of t)" and caps: "caps_ok T"
      by (auto simp: bt_abs_def)
    from main[OF t(1) lm im caps] show ?thesis unfolding t(2) .
  qed
qed

lemma insert_all_abs:
  fixes T :: "('k::linorder, 'v) BPlusTree"
  assumes "bt_abs T m" "2 \<le> leaf_max_size T" "1 \<le> internal_max_size T"
    "distinct (map fst kvs)" "\<forall>x\<in>fst ` set kvs. x \<notin> dom m"
  shows "\<exists>T'. insert_all kvs T = Some (T', replicate (length kvs) True) \<and>
      bt_abs T' (m ++ map_of kvs) \<and>
      leaf_max_size T' = leaf_max_size T \<and> internal_max_size T' = internal_max_size T"
  using assms
proof (induction kvs arbitrary: T m)
  case Nil
  then show ?case by simp
next
  case (Cons kv kvs)
  have nk: "fst kv \<notin> dom m" using Cons.prems(5) by simp
  from Insert_abs[OF Cons.prems(1-3), of "fst kv" "snd kv"] nk obtain T1 where
    t1: "Insert T (fst kv) (snd kv) = Some (T1, True)" "bt_abs T1 (m(fst kv \<mapsto> snd kv))"
        "leaf_max_size T1 = leaf_max_size T" "internal_max_size T1 = internal_max_size T"
    by auto
  have d: "distinct (map fst kvs)" and nin: "fst kv \<notin> fst ` set kvs" using Cons.prems(4) by auto
  have fresh: "\<forall>x\<in>fst ` set kvs. x \<notin> dom (m(fst kv \<mapsto> snd kv))"
  proof
    fix x assume x: "x \<in> fst ` set kvs"
    with nin have "x \<noteq> fst kv" by blast
    moreover from x have "x \<in> fst ` set (kv # kvs)" by auto
    with Cons.prems(5) have "x \<notin> dom m" by blast
    ultimately show "x \<notin> dom (m(fst kv \<mapsto> snd kv))" by simp
  qed
  have s1: "2 \<le> leaf_max_size T1" "1 \<le> internal_max_size T1"
    using t1(3,4) Cons.prems(2,3) by simp_all
  from Cons.IH[OF t1(2) s1 d fresh] obtain T' where
    t': "insert_all kvs T1 = Some (T', replicate (length kvs) True)"
        "bt_abs T' (m(fst kv \<mapsto> snd kv) ++ map_of kvs)"
        "leaf_max_size T' = leaf_max_size T1" "internal_max_size T' = internal_max_size T1"
    by blast
  have "fst kv \<notin> dom (map_of kvs)" using nin by (simp add: dom_map_of_conv_image_fst)
  then have eq: "m(fst kv \<mapsto> snd kv) ++ map_of kvs = m ++ map_of (kv # kvs)"
    by (cases kv) (simp add: map_add_upd_left)
  have abs': "bt_abs T' (m ++ map_of (kv # kvs))" using t'(2) unfolding eq .
  have ia: "insert_all (kv # kvs) T = Some (T', replicate (length (kv # kvs)) True)"
    using t1(1) t'(1) by simp
  have sz: "leaf_max_size T' = leaf_max_size T" "internal_max_size T' = internal_max_size T"
    using t'(3,4) t1(3,4) by simp_all
  from ia abs' sz show ?case by blast
qed

text \<open>
  C1: every sequence of insertions with pairwise distinct keys into an empty tree
  returns, each call with the result true; afterwards \<^verbatim>\<open>GetValue\<close> finds the value of each
  inserted pair, and \<^verbatim>\<open>Insert\<close> of an inserted key returns false. The tree has
  \<open>leaf_max_size\<close> at least 2 and \<open>internal_max_size\<close> at least 1; the sizes pass the
  checks of \<^verbatim>\<open>Init\<close> (\<open>leaf_max_size\<close> at most the capacity \<open>leaf_cap\<close> of a leaf page,
  \<open>internal_max_size + 1\<close> at most the capacity \<open>internal_cap\<close> of an internal page); and
  the buffer pool hands out a frame for every page id from the first one \<open>nxt \<ge> 0\<close> on.
\<close>

theorem Insert_round_trip:
  fixes kvs :: "('k::linorder \<times> 'v) list"
  assumes "2 \<le> lm" "1 \<le> im" "lm \<le> leaf_cap" "im + 1 \<le> internal_cap"
    "0 \<le> nxt" "\<forall>p. nxt \<le> p \<longrightarrow> grants p" "distinct (map fst kvs)"
  shows "\<exists>T. insert_all kvs (BPlusTree_init lm im leaf_cap internal_cap grants nxt) =
          Some (T, replicate (length kvs) True) \<and>
      (\<forall>kv\<in>set kvs. GetValue T (fst kv) = Some (Some (snd kv)) \<and>
         (\<forall>v'. \<exists>T'. Insert T (fst kv) v' = Some (T', False)))"
proof -
  let ?T0 = "BPlusTree_init lm im leaf_cap internal_cap grants nxt :: ('k, 'v) BPlusTree"
  have a0: "bt_abs ?T0 Map.empty" using assms(5,3,4,6) by (rule bt_abs_init)
  have s0: "2 \<le> leaf_max_size ?T0" "1 \<le> internal_max_size ?T0"
    using assms(1,2) by (simp_all add: BPlusTree_init_def)
  from insert_all_abs[OF a0 s0 assms(7)] obtain T where
    t: "insert_all kvs ?T0 = Some (T, replicate (length kvs) True)" "bt_abs T (Map.empty ++ map_of kvs)"
       "leaf_max_size T = leaf_max_size ?T0" "internal_max_size T = internal_max_size ?T0"
    by auto
  have abs: "bt_abs T (map_of kvs)" using t(2) by simp
  have "\<forall>kv\<in>set kvs. GetValue T (fst kv) = Some (Some (snd kv)) \<and>
         (\<forall>v'. \<exists>T'. Insert T (fst kv) v' = Some (T', False))"
  proof
    fix kv assume kv: "kv \<in> set kvs"
    then have "(fst kv, snd kv) \<in> set kvs" by simp
    then have m: "map_of kvs (fst kv) = Some (snd kv)"
      using map_of_eq_Some_iff[OF assms(7)] by blast
    have g: "GetValue T (fst kv) = Some (Some (snd kv))" using GetValue_abs[OF abs, of "fst kv"] m by simp
    have dm: "fst kv \<in> dom (map_of kvs)" using m by blast
    have "\<forall>v'. \<exists>T'. Insert T (fst kv) v' = Some (T', False)"
    proof
      fix v'
      from Insert_abs[OF abs, of "fst kv" v'] t(3,4) s0 dm
      show "\<exists>T'. Insert T (fst kv) v' = Some (T', False)" by auto
    qed
    with g show "GetValue T (fst kv) = Some (Some (snd kv)) \<and>
         (\<forall>v'. \<exists>T'. Insert T (fst kv) v' = Some (T', False))" ..
  qed
  with t(1) show ?thesis by blast
qed

theorem Insert_round_trip_witness:
  "\<exists>T. insert_all [(1::int, 10::int), (2, 20), (3, 30), (4, 40), (5, 50)]
          (BPlusTree_init 3 3 3 4 (\<lambda>p. 1 \<le> p) 1) =
         Some (T, [True, True, True, True, True]) \<and>
       GetValue T 4 = Some (Some 40) \<and> (\<exists>T'. Insert T 4 0 = Some (T', False))"
proof -
  let ?kvs = "[(1::int, 10::int), (2, 20), (3, 30), (4, 40), (5, 50)]"
  have d: "2 \<le> (3::nat)" "1 \<le> (3::nat)" "(3::nat) \<le> 3" "(3::nat) + 1 \<le> 4" "0 \<le> (1::int)"
    "\<forall>p::int. 1 \<le> p \<longrightarrow> (\<lambda>p. 1 \<le> p) p" "distinct (map fst ?kvs)" by simp_all
  from Insert_round_trip[OF d] obtain T where
    t: "insert_all ?kvs (BPlusTree_init 3 3 3 4 (\<lambda>p. 1 \<le> p) 1) = Some (T, replicate (length ?kvs) True)"
       "\<forall>kv\<in>set ?kvs. GetValue T (fst kv) = Some (Some (snd kv)) \<and>
          (\<forall>v'. \<exists>T'. Insert T (fst kv) v' = Some (T', False))"
    by blast
  have r: "replicate (length ?kvs) True = [True, True, True, True, True]" by simp
  have "(4, 40) \<in> set ?kvs" by simp
  with t(2) have "GetValue T (fst (4::int, 40::int)) = Some (Some (snd (4::int, 40::int))) \<and>
          (\<forall>v'. \<exists>T'. Insert T (fst (4::int, 40::int)) v' = Some (T', False))" by blast
  then have "GetValue T 4 = Some (Some 40) \<and> (\<exists>T'. Insert T 4 0 = Some (T', False))" by simp
  with t(1) r show ?thesis by metis
qed

section \<open>Insertion keeps the depth and the sizes\<close>







section \<open>Arrays of slots under removal\<close>

lemma GetMinSize_pos: "1 \<le> m \<Longrightarrow> 1 \<le> GetMinSize m"
  by (simp add: GetMinSize_def)


lemma GetMinSize_double: "2 * GetMinSize m \<le> m + 1"
  by (simp add: GetMinSize_def)

















lemma fst_sized [simp]: "fst (sized arr) = int (length arr)"
  by (simp add: sized_def)

lemma snd_sized [simp]: "snd (sized arr) = arr"
  by (simp add: sized_def)


section \<open>Two neighbours rearranged\<close>























lemma half_sum: "m div 2 + (m + 1) div 2 = (m::nat)" by presburger
lemma half_le: "(m + 1) div 2 \<le> m div 2 + (1::nat)" by presburger




section \<open>Removal on trees as values\<close>




























section \<open>Two neighbours, of which one is below its minimum size\<close>








lemma records_of_slots:
  "records_of (root_first a) (apid a) (if Rx then None else Some (root_first b)) (apid b) =
   map (\<lambda>e. (fst e, apid (snd e))) (map (\<lambda>t. (root_first t, t)) (a # (if Rx then [] else [b])))"
  by (simp add: records_of_def)












section \<open>Remove on the whole tree\<close>










section \<open>The tree as a map\<close>


























end
